theory Spec2Isabelle
  imports Main "HOL-Library.Sublist" "HOL-Library.Log_Nat"
begin

section \<open>Strings\<close>

text \<open>
  A Python \<open>str\<close> is a sequence of Unicode code points, and \<open>len\<close> counts code points.
  A string is therefore a list of code points, each a natural number; \<open>str_of\<close> embeds an
  ASCII literal.
\<close>

type_synonym pystr = "nat list"

definition str_of :: "string \<Rightarrow> pystr" where
  "str_of s = map of_char s"

definition lbrace :: nat where
  "lbrace = 123"

definition rbrace :: nat where
  "rbrace = 125"

section \<open>The placeholder pattern\<close>

text \<open>
  \<open>match_placeholder s\<close> is the length of the match of the regular expression
  \<^verbatim>\<open>\{\{[^}]+\}\}\<close> anchored at the start of \<open>s\<close>, if there is one. After the two
  opening braces the greedy class \<^verbatim>\<open>[^}]+\<close> takes the longest run of characters
  other than the closing brace; giving characters back cannot help, since the character
  after a shorter run is not a closing brace. So the pattern matches exactly when that
  run is not empty and two closing braces follow it.
\<close>

definition match_placeholder :: "pystr \<Rightarrow> nat option" where
  "match_placeholder s =
     (case s of
        a # b # rest \<Rightarrow>
          if a = lbrace \<and> b = lbrace then
            (let body = takeWhile (\<lambda>c. c \<noteq> rbrace) rest;
                 after = dropWhile (\<lambda>c. c \<noteq> rbrace) rest
             in if body \<noteq> [] \<and> take 2 after = [rbrace, rbrace]
                then Some (length body + 4) else None)
          else None
      | _ \<Rightarrow> None)"

text \<open>
  \<^verbatim>\<open>re.findall(r'\{\{[^}]+\}\}', s)\<close>: the matches from left to right, the search
  resuming after the end of each match.
\<close>

function findall_placeholders :: "pystr \<Rightarrow> pystr list" where
  "findall_placeholders [] = []"
| "findall_placeholders (c # cs) =
     (case match_placeholder (c # cs) of
        Some n \<Rightarrow> take n (c # cs) # findall_placeholders (drop n (c # cs))
      | None \<Rightarrow> findall_placeholders cs)"
  by pat_completeness auto
termination
  by (relation "measure length")
     (auto simp: match_placeholder_def Let_def split: list.splits if_splits)

text \<open>
  \<^verbatim>\<open>re.sub(r'\{\{[^}]+\}\}', '', s)\<close>: the text with every such match removed.
\<close>

function remove_placeholders :: "pystr \<Rightarrow> pystr" where
  "remove_placeholders [] = []"
| "remove_placeholders (c # cs) =
     (case match_placeholder (c # cs) of
        Some n \<Rightarrow> remove_placeholders (drop n (c # cs))
      | None \<Rightarrow> c # remove_placeholders cs)"
  by pat_completeness auto
termination
  by (relation "measure length")
     (auto simp: match_placeholder_def Let_def split: list.splits if_splits)

section \<open>Tasks and validation results\<close>

record TranslationTask =
  "locale" :: pystr
  file_name :: pystr
  key :: pystr
  english_value :: pystr
  is_missing :: bool

text \<open>
  The messages of a validation result are f-strings; each constructor stands for one of
  them and carries the values interpolated into it:
  \<^item> \<open>MissingPlaceholder p\<close>: \<^verbatim>\<open>f"Missing placeholder {p} in translation"\<close>;
  \<^item> \<open>ExtraPlaceholder p\<close>: \<^verbatim>\<open>f"Extra placeholder {p} in translation"\<close>;
  \<^item> \<open>UnusualLength t n\<close>: the length-ratio warning for \<open>n\<close> original and \<open>t\<close>
    translated characters;
  \<^item> \<open>EnglishRemnants l t\<close>: the untranslated-text warning for \<open>l\<close> Latin characters
    out of \<open>t\<close>.
\<close>

datatype message =
    MissingPlaceholder pystr
  | ExtraPlaceholder pystr
  | UnusualLength nat nat
  | EnglishRemnants nat nat

record ValidationResult =
  is_valid :: bool
  errors :: "message list"
  warnings :: "message list"

definition valid_result :: ValidationResult where
  "valid_result = \<lparr>is_valid = True, errors = [], warnings = []\<rparr>"

section \<open>Placeholder check\<close>

definition record_missing :: "pystr list \<Rightarrow> pystr \<Rightarrow> ValidationResult \<Rightarrow> ValidationResult" where
  "record_missing translated_placeholders placeholder result =
     (if placeholder \<notin> set translated_placeholders
      then result\<lparr>is_valid := False,
                  errors := errors result @ [MissingPlaceholder placeholder]\<rparr>
      else result)"

definition record_extra :: "pystr list \<Rightarrow> pystr \<Rightarrow> ValidationResult \<Rightarrow> ValidationResult" where
  "record_extra original_placeholders placeholder result =
     (if placeholder \<notin> set original_placeholders
      then result\<lparr>warnings := warnings result @ [ExtraPlaceholder placeholder]\<rparr>
      else result)"

definition validate_placeholders :: "pystr \<Rightarrow> pystr \<Rightarrow> ValidationResult" where
  "validate_placeholders original translated =
     (let original_placeholders = findall_placeholders original;
          translated_placeholders = findall_placeholders translated;
          result = fold (record_missing translated_placeholders) original_placeholders valid_result
      in fold (record_extra original_placeholders) translated_placeholders result)"

section \<open>Floating-point arithmetic\<close>

text \<open>
  The length and script checks compare quotients of lengths as Python floats. A float is
  modelled by the rational number it denotes. \<open>round_double x\<close> is the IEEE 754 binary64
  number nearest to a non-negative rational \<open>x\<close>, ties going to the even significand
  (the exponent range is not bounded: quotients of string lengths are far from overflow
  and underflow). Python's \<open>int / int\<close> and \<open>float / float\<close> are correctly rounded, so
  \<open>a / b\<close> is \<open>round_double\<close> of the exact quotient.
\<close>

definition round_half_even :: "rat \<Rightarrow> int" where
  "round_half_even y =
     (let f = \<lfloor>y\<rfloor>; d = y - of_int f
      in if d < 1 / 2 \<or> (d = 1 / 2 \<and> even f) then f else f + 1)"

text \<open>For \<open>x > 0\<close>, \<open>binade x\<close> is the exponent \<open>e\<close> with \<open>2 ^ e \<le> x < 2 ^ (e + 1)\<close>.\<close>

definition binade :: "rat \<Rightarrow> int" where
  "binade x =
     (case quotient_of x of
        (p, q) \<Rightarrow> let d = bitlen p - bitlen q in if 2 powi d \<le> x then d else d - 1)"

definition round_double :: "rat \<Rightarrow> rat" where
  "round_double x =
     (if x \<le> 0 then 0
      else let e = binade x
           in of_int (round_half_even (x * 2 powi (52 - e))) * 2 powi (e - 52))"

definition float_div :: "rat \<Rightarrow> rat \<Rightarrow> rat" where
  "float_div a b = round_double (a / b)"

section \<open>Length check\<close>

text \<open>
  \<open>tolerance\<close> is the float parameter of the source (default \<open>3.0\<close>); it is replaced by
  \<open>5.0\<close> for an original of at most five characters.
\<close>

definition validate_length :: "pystr \<Rightarrow> pystr \<Rightarrow> rat \<Rightarrow> ValidationResult" where
  "validate_length original translated tolerance =
     (if length original = 0 then valid_result
      else
        let ratio = float_div (of_nat (length translated)) (of_nat (length original));
            tolerance = (if length original \<le> 5 then 5 else tolerance)
        in if ratio < float_div 1 tolerance \<or> ratio > tolerance
           then valid_result\<lparr>warnings := [UnusualLength (length translated) (length original)]\<rparr>
           else valid_result)"

section \<open>Script check\<close>

definition technical_terms :: "pystr set" where
  "technical_terms = str_of ` {''API'', ''URL'', ''JSON'', ''HTML'', ''HTTP'', ''HTTPS'',
     ''ID'', ''UI'', ''OpenAI'', ''ChatGPT''}"

definition non_latin_scripts :: "pystr list" where
  "non_latin_scripts = map str_of [''zh'', ''ja'', ''ko'', ''ar'', ''he'', ''hi'', ''th'',
     ''my'', ''si'', ''bn'', ''te'', ''ur'', ''am'', ''fa'']"

text \<open>\<^verbatim>\<open>s.replace(w, '')\<close>: every occurrence of \<open>w\<close> removed, from left to right.\<close>

function remove_all :: "pystr \<Rightarrow> pystr \<Rightarrow> pystr" where
  "remove_all w [] = []"
| "remove_all w (c # cs) =
     (if w \<noteq> [] \<and> prefix w (c # cs) then remove_all w (drop (length w) (c # cs))
      else c # remove_all w cs)"
  by pat_completeness auto
termination
  by (relation "measure (\<lambda>(w, s). length s)") auto

text \<open>The class \<^verbatim>\<open>[a-zA-Z]\<close>.\<close>

definition is_latin :: "nat \<Rightarrow> bool" where
  "is_latin c = ((65 \<le> c \<and> c \<le> 90) \<or> (97 \<le> c \<and> c \<le> 122))"

text \<open>The class \<^verbatim>\<open>\s\<close> of a Unicode pattern: the code points that are whitespace.\<close>

definition is_space :: "nat \<Rightarrow> bool" where
  "is_space c = ((9 \<le> c \<and> c \<le> 13) \<or> (28 \<le> c \<and> c \<le> 32) \<or> c = 133 \<or> c = 160
     \<or> c = 5760 \<or> (8192 \<le> c \<and> c \<le> 8202) \<or> c = 8232 \<or> c = 8233 \<or> c = 8239
     \<or> c = 8287 \<or> c = 12288)"

text \<open>
  The source removes the technical terms in the iteration order of a Python set of
  strings, which the language does not fix; \<open>term_order\<close> is that order, a parameter of
  the model.
\<close>

definition validate_no_english_remnants ::
  "pystr list \<Rightarrow> pystr \<Rightarrow> pystr \<Rightarrow> pystr \<Rightarrow> ValidationResult" where
  "validate_no_english_remnants term_order original translated loc =
     (if loc \<in> set non_latin_scripts then
        (let check_text = fold remove_all term_order translated;
             check_text = remove_placeholders check_text;
             latin_chars = length (filter is_latin check_text);
             total_chars = length (filter (\<lambda>c. \<not> is_space c) check_text)
         in if total_chars > 0
               \<and> float_div (of_nat latin_chars) (of_nat total_chars) > round_double (3 / 10)
            then valid_result\<lparr>warnings := [EnglishRemnants latin_chars total_chars]\<rparr>
            else valid_result)
      else valid_result)"

section \<open>All checks combined\<close>

definition combine :: "ValidationResult \<Rightarrow> ValidationResult \<Rightarrow> ValidationResult" where
  "combine result combined =
     \<lparr>is_valid = (if \<not> is_valid result then False else is_valid combined),
      errors = errors combined @ errors result,
      warnings = warnings combined @ warnings result\<rparr>"

definition validate_translation ::
  "pystr list \<Rightarrow> TranslationTask \<Rightarrow> pystr \<Rightarrow> ValidationResult" where
  "validate_translation term_order task translated =
     (let results =
            [validate_placeholders (english_value task) translated,
             validate_length (english_value task) translated 3,
             validate_no_english_remnants term_order (english_value task) translated (locale task)]
      in fold combine results valid_result)"

section \<open>Dictionaries, JSON files and the file system\<close>

text \<open>
  A Python \<open>dict\<close> keeps its keys in insertion order and holds each key once: it is an
  association list. Assigning to a key that is present replaces the value in place;
  assigning to a new key adds the entry at the end.
\<close>

type_synonym ('k, 'v) dict = "('k \<times> 'v) list"

fun dict_set :: "'k \<Rightarrow> 'v \<Rightarrow> ('k, 'v) dict \<Rightarrow> ('k, 'v) dict" where
  "dict_set k v [] = [(k, v)]"
| "dict_set k v ((k', v') # d) = (if k' = k then (k, v) # d else (k', v') # dict_set k v d)"

text \<open>
  \<open>json.load\<close> gives the values of a locale file as JSON values; only a string can be
  equal to \<^verbatim>\<open>""\<close>.
\<close>

datatype json =
    JNull
  | JBool bool
  | JNumber rat
  | JString pystr
  | JArray "json list"
  | JObject "(pystr \<times> json) list"

text \<open>
  A path is the list of its components. The file system holds the locale files, each
  with the dictionary \<open>json.load\<close> reads from it and \<open>json.dump\<close> writes to it, and the
  set of directories. A locale and a file name are single path components.
\<close>

type_synonym path = "pystr list"

record filesystem =
  files :: "path \<rightharpoonup> (pystr, json) dict"
  dirs :: "path set"

definition LOCALES_DIR :: path where
  "LOCALES_DIR = [str_of ''public'', str_of ''locales'']"

section \<open>Locale analyzer\<close>

definition analyze_file ::
  "filesystem \<Rightarrow> path \<Rightarrow> pystr \<Rightarrow> pystr \<times> (pystr, pystr) dict \<Rightarrow> TranslationTask list" where
  "analyze_file fs locale_dir loc entry =
     (case entry of (fname, english_data) \<Rightarrow>
        (case files fs (locale_dir @ [fname]) of
           None \<Rightarrow>
             map (\<lambda>(k, v). \<lparr>locale = loc, file_name = fname, key = k,
                             english_value = v, is_missing = True\<rparr>) english_data
         | Some locale_data \<Rightarrow>
             concat (map (\<lambda>(k, v).
               if map_of locale_data k = None then
                 [\<lparr>locale = loc, file_name = fname, key = k,
                   english_value = v, is_missing = True\<rparr>]
               else if map_of locale_data k = Some (JString []) then
                 [\<lparr>locale = loc, file_name = fname, key = k,
                   english_value = v, is_missing = False\<rparr>]
               else []) english_data)))"

text \<open>
  \<open>locales_dir\<close> and \<open>english_data\<close> are the fields of the analyzer: the root of the
  locale tree and the reference files loaded from it.
\<close>

definition analyze_locale ::
  "path \<Rightarrow> (pystr, (pystr, pystr) dict) dict \<Rightarrow> filesystem \<Rightarrow> pystr \<Rightarrow> TranslationTask list" where
  "analyze_locale locales_dir english_data fs loc =
     (let locale_dir = locales_dir @ [loc]
      in if locale_dir \<notin> dirs fs then []
         else concat (map (analyze_file fs locale_dir loc) english_data))"

section \<open>Safe file updater\<close>

text \<open>What the updater logs at level INFO.\<close>

datatype log_event =
    Updated path nat
  | WouldUpdate path nat

text \<open>\<open>Path.mkdir(parents=True, exist_ok=True)\<close>: the directory and all its ancestors.\<close>

definition mkdir_parents :: "path \<Rightarrow> filesystem \<Rightarrow> filesystem" where
  "mkdir_parents p fs = fs\<lparr>dirs := dirs fs \<union> set (map (\<lambda>n. take n p) [1 ..< Suc (length p)])\<rparr>"

text \<open>
  \<open>backup_file\<close> for a relative path: the file is copied below the backup directory,
  under the same relative path.
\<close>

definition backup_file :: "path \<Rightarrow> path \<Rightarrow> filesystem \<Rightarrow> filesystem" where
  "backup_file backup_dir file_path fs =
     (case files fs file_path of
        None \<Rightarrow> fs
      | Some content \<Rightarrow>
          (let backup_path = backup_dir @ file_path;
               fs = mkdir_parents (butlast backup_path) fs
           in fs\<lparr>files := (files fs)(backup_path \<mapsto> content)\<rparr>))"

text \<open>
  \<open>Path.with_suffix('.tmp')\<close> on the last component: the suffix of a name starts at its
  last dot, unless that dot is the first or the last character.
\<close>

definition with_suffix_tmp :: "pystr \<Rightarrow> pystr" where
  "with_suffix_tmp name =
     (let dot = 46;
          i = length name - 1 - length (takeWhile (\<lambda>c. c \<noteq> dot) (rev name))
      in if dot \<in> set name \<and> 0 < i \<and> i < length name - 1
         then take i name @ str_of ''.tmp''
         else name @ str_of ''.tmp'')"

text \<open>The new content goes to the temporary file, which then replaces the locale file.\<close>

definition write_atomically :: "path \<Rightarrow> (pystr, json) dict \<Rightarrow> filesystem \<Rightarrow> filesystem" where
  "write_atomically file_path data fs =
     (let temp_path = butlast file_path @ [with_suffix_tmp (last file_path)];
          written = (files fs)(temp_path \<mapsto> data)
      in fs\<lparr>files := (written(temp_path := None))(file_path := written temp_path)\<rparr>)"

definition merge_entry ::
  "pystr \<times> pystr \<Rightarrow> (pystr, json) dict \<times> nat \<Rightarrow> (pystr, json) dict \<times> nat" where
  "merge_entry entry acc =
     (case entry of (k, v) \<Rightarrow>
        (case acc of (data, updates_made) \<Rightarrow>
           if map_of data k = None \<or> map_of data k = Some (JString [])
           then (dict_set k (JString v) data, updates_made + 1)
           else (data, updates_made)))"

text \<open>The merged dictionary and the number of updates, from the loop over the incoming items.\<close>

definition merge_translations ::
  "(pystr, json) dict \<Rightarrow> (pystr, pystr) dict \<Rightarrow> (pystr, json) dict \<times> nat" where
  "merge_translations data translations = fold merge_entry translations (data, 0)"

text \<open>
  \<open>update_locale_file\<close> returns \<open>True\<close>; the model returns with it the log and the file
  system it leaves. \<open>backup_dir\<close> is the field of the updater.
\<close>

definition update_locale_file ::
  "path \<Rightarrow> filesystem \<Rightarrow> pystr \<Rightarrow> pystr \<Rightarrow> (pystr, pystr) dict \<Rightarrow> bool
     \<Rightarrow> bool \<times> log_event list \<times> filesystem" where
  "update_locale_file backup_dir fs loc fname translations dry_run =
     (let file_path = LOCALES_DIR @ [loc, fname];
          (data, fs) =
            (case files fs file_path of
               Some content \<Rightarrow>
                 (content, if \<not> dry_run then backup_file backup_dir file_path fs else fs)
             | None \<Rightarrow>
                 ([], if \<not> dry_run then mkdir_parents (butlast file_path) fs else fs));
          (data, updates_made) = merge_translations data translations
      in if updates_made > 0 then
           (if \<not> dry_run
            then (True, [Updated file_path updates_made], write_atomically file_path data fs)
            else (True, [WouldUpdate file_path updates_made], fs))
         else (True, [], fs))"

section \<open>Batches\<close>

datatype error = ValueError | ProviderFailure

text \<open>\<open>grouped[key].append(task)\<close> on a \<open>defaultdict(list)\<close>.\<close>

fun group_append :: "'k \<Rightarrow> 'a \<Rightarrow> ('k, 'a list) dict \<Rightarrow> ('k, 'a list) dict" where
  "group_append k x [] = [(k, [x])]"
| "group_append k x ((k', xs) # g) =
     (if k' = k then (k', xs @ [x]) # g else (k', xs) # group_append k x g)"

definition task_group :: "TranslationTask \<Rightarrow> pystr \<times> pystr" where
  "task_group task = (locale task, file_name task)"

definition group_tasks :: "TranslationTask list \<Rightarrow> (pystr \<times> pystr, TranslationTask list) dict" where
  "group_tasks tasks = fold (\<lambda>task grouped. group_append (task_group task) task grouped) tasks []"

text \<open>
  \<open>range(0, stop, step)\<close>: a zero step raises \<open>ValueError\<close>, a negative step gives the
  empty range.
\<close>

definition range_from_zero :: "nat \<Rightarrow> int \<Rightarrow> error + nat list" where
  "range_from_zero stop step =
     (if step = 0 then Inl ValueError
      else if step < 0 then Inr []
      else Inr (map (\<lambda>j. j * nat step) [0 ..< (stop + nat step - 1) div nat step]))"

text \<open>The slices \<open>file_tasks[i:i + batch_size]\<close> of one group.\<close>

definition chunks :: "int \<Rightarrow> 'a list \<Rightarrow> error + 'a list list" where
  "chunks batch_size file_tasks =
     (case range_from_zero (length file_tasks) batch_size of
        Inl e \<Rightarrow> Inl e
      | Inr starts \<Rightarrow> Inr (map (\<lambda>i. take (nat batch_size) (drop i file_tasks)) starts))"

fun chunk_groups :: "int \<Rightarrow> 'a list list \<Rightarrow> error + 'a list list" where
  "chunk_groups batch_size [] = Inr []"
| "chunk_groups batch_size (file_tasks # groups) =
     (case chunks batch_size file_tasks of
        Inl e \<Rightarrow> Inl e
      | Inr cs \<Rightarrow>
          (case chunk_groups batch_size groups of
             Inl e \<Rightarrow> Inl e
           | Inr batches \<Rightarrow> Inr (cs @ batches)))"

definition group_tasks_into_batches ::
  "TranslationTask list \<Rightarrow> int \<Rightarrow> error + TranslationTask list list" where
  "group_tasks_into_batches tasks batch_size =
     chunk_groups batch_size (map snd (group_tasks tasks))"

section \<open>Translation engine\<close>

text \<open>
  A request to the provider is determined by the locale and the file name of the first
  task (they select the language name and the context of the prompt) and by the items to
  translate. The answer of the provider is not in the program's hands: the call raises,
  or the message has no parsed content, or it carries a list of (key, translation) items.
  A provider is any function from the requests made so far, the current one last, to an
  answer.
\<close>

record request =
  req_locale :: pystr
  req_file_name :: pystr
  req_items :: "(pystr \<times> pystr) list"

datatype response =
    Raises
  | NotParsed
  | Parsed "(pystr \<times> pystr) list"

type_synonym provider = "request list \<Rightarrow> response"

text \<open>
  The state of the engine: the cache, and with it a trace of what the engine does to the
  outside, the requests it sends and the seconds it sleeps.
\<close>

record engine =
  translation_cache :: "pystr \<times> pystr \<times> pystr \<rightharpoonup> pystr"
  requests :: "request list"
  sleeps :: "nat list"

type_synonym translation_result = "TranslationTask \<times> pystr \<times> ValidationResult"

definition cache_key :: "TranslationTask \<Rightarrow> pystr \<times> pystr \<times> pystr" where
  "cache_key task = (locale task, key task, english_value task)"

text \<open>
  The loop over \<open>zip(uncached_tasks, translations)\<close>. \<open>retries_remain\<close> is
  \<open>attempt < max_retries - 1\<close>; the \<open>continue\<close> of the source goes on with the next pair.
\<close>

fun process_translations ::
  "pystr list \<Rightarrow> bool \<Rightarrow> (TranslationTask \<times> pystr \<times> pystr) list
     \<Rightarrow> engine \<times> translation_result list \<Rightarrow> engine \<times> translation_result list" where
  "process_translations term_order retries_remain [] acc = acc"
| "process_translations term_order retries_remain ((task, trans_item) # rest) acc =
     (case acc of (st, results) \<Rightarrow>
        (let translated = snd trans_item;
             validation = validate_translation term_order task translated
         in if \<not> is_valid validation \<and> retries_remain then
              process_translations term_order retries_remain rest
                (st\<lparr>sleeps := sleeps st @ [1]\<rparr>, results)
            else
              process_translations term_order retries_remain rest
                (st\<lparr>translation_cache := (translation_cache st)(cache_key task \<mapsto> translated)\<rparr>,
                 results @ [(task, translated, validation)])))"

text \<open>The loop \<open>for attempt in range(max_retries)\<close>, from \<open>attempt\<close> on.\<close>

function attempts ::
  "pystr list \<Rightarrow> provider \<Rightarrow> int \<Rightarrow> request \<Rightarrow> TranslationTask list \<Rightarrow> int
     \<Rightarrow> engine \<Rightarrow> translation_result list \<Rightarrow> (error + translation_result list) \<times> engine" where
  "attempts term_order ask max_retries req uncached_tasks attempt st results =
     (if attempt < max_retries then
        (let st = st\<lparr>requests := requests st @ [req]\<rparr>
         in case ask (requests st) of
              Raises \<Rightarrow>
                if attempt < max_retries - 1 then
                  attempts term_order ask max_retries req uncached_tasks (attempt + 1)
                    (st\<lparr>sleeps := sleeps st @ [2 ^ nat attempt]\<rparr>) results
                else (Inl ProviderFailure, st)
            | NotParsed \<Rightarrow>
                attempts term_order ask max_retries req uncached_tasks (attempt + 1) st results
            | Parsed translations \<Rightarrow>
                (case process_translations term_order (attempt < max_retries - 1)
                        (zip uncached_tasks translations) (st, results) of
                   (st, results) \<Rightarrow> (Inr results, st)))
      else (Inr results, st))"
  by pat_completeness auto
termination
  by (relation "measure (\<lambda>(term_order, ask, max_retries, req, uncached_tasks, attempt, st, results).
        nat (max_retries - attempt))") auto

definition translate_batch ::
  "pystr list \<Rightarrow> provider \<Rightarrow> engine \<Rightarrow> TranslationTask list \<Rightarrow> int
     \<Rightarrow> (error + translation_result list) \<times> engine" where
  "translate_batch term_order ask st tasks max_retries =
     (if tasks = [] then (Inr [], st)
      else
        let cached = (\<lambda>task. translation_cache st (cache_key task) \<noteq> None);
            results = map (\<lambda>task.
                let translated = the (translation_cache st (cache_key task))
                in (task, translated, validate_translation term_order task translated))
              (filter cached tasks);
            uncached_tasks = filter (\<lambda>task. \<not> cached task) tasks
        in if uncached_tasks = [] then (Inr results, st)
           else
             let req = \<lparr>req_locale = locale (hd tasks), req_file_name = file_name (hd tasks),
                        req_items = map (\<lambda>task. (key task, english_value task)) uncached_tasks\<rparr>
             in attempts term_order ask max_retries req uncached_tasks 0 st results)"

section \<open>Notions and data for the statements\<close>

text \<open>The tasks of a task list for one file and one key.\<close>

definition tasks_for :: "pystr \<Rightarrow> pystr \<Rightarrow> TranslationTask list \<Rightarrow> TranslationTask list" where
  "tasks_for fname k tasks = filter (\<lambda>t. file_name t = fname \<and> key t = k) tasks"

text \<open>A reference set and a file system to run the analyzer and the updater on.\<close>

definition example_english :: "(pystr, (pystr, pystr) dict) dict" where
  "example_english =
     [(str_of ''common.json'',
       [(str_of ''greeting'', str_of ''Hello {{name}}''),
        (str_of ''farewell'', str_of ''Goodbye''),
        (str_of ''title'', str_of ''Chat'')])]"

definition example_fs :: filesystem where
  "example_fs =
     \<lparr>files = [LOCALES_DIR @ [str_of ''fr'', str_of ''common.json''] \<mapsto>
         [(str_of ''greeting'', JString (str_of ''Bonjour {{name}}'')),
          (str_of ''farewell'', JString []),
          (str_of ''legacy'', JString (str_of ''Ancien''))]],
      dirs = {LOCALES_DIR @ [str_of ''fr''], LOCALES_DIR @ [str_of ''es'']}\<rparr>"

definition writable :: "(pystr, json) dict \<Rightarrow> pystr \<Rightarrow> bool" where
  "writable data k = (map_of data k = None \<or> map_of data k = Some (JString []))"

definition existing_data :: "filesystem \<Rightarrow> pystr \<Rightarrow> pystr \<Rightarrow> (pystr, json) dict" where
  "existing_data fs loc fname =
     (case files fs (LOCALES_DIR @ [loc, fname]) of Some content \<Rightarrow> content | None \<Rightarrow> [])"

definition example_incoming :: "(pystr, pystr) dict" where
  "example_incoming =
     [(str_of ''greeting'', str_of ''Salut {{name}}''),
      (str_of ''farewell'', str_of ''Au revoir''),
      (str_of ''title'', str_of ''Discussion'')]"

text \<open>A request carries a triple when it is for the language and holds the key with the text.\<close>

definition request_for :: "pystr \<times> pystr \<times> pystr \<Rightarrow> request \<Rightarrow> bool" where
  "request_for triple q =
     (case triple of (l, k, s) \<Rightarrow> req_locale q = l \<and> (k, s) \<in> set (req_items q))"

text \<open>The requests sent between two states of the engine.\<close>

definition new_requests :: "engine \<Rightarrow> engine \<Rightarrow> request list" where
  "new_requests st st' = drop (length (requests st)) (requests st')"

text \<open>A task, an engine that has done nothing yet, and three providers.\<close>

definition example_task :: TranslationTask where
  "example_task =
     \<lparr>locale = str_of ''fr'', file_name = str_of ''common.json'', key = str_of ''greeting'',
      english_value = str_of ''Hello {{name}}'', is_missing = True\<rparr>"

definition example_request :: request where
  "example_request =
     \<lparr>req_locale = str_of ''fr'', req_file_name = str_of ''common.json'',
      req_items = [(str_of ''greeting'', str_of ''Hello {{name}}'')]\<rparr>"

definition empty_engine :: engine where
  "empty_engine = \<lparr>translation_cache = Map.empty, requests = [], sleeps = []\<rparr>"

definition lossy_provider :: provider where
  "lossy_provider reqs = Parsed [(str_of ''greeting'', str_of ''Bonjour'')]"

definition flaky_provider :: provider where
  "flaky_provider reqs =
     (if length reqs = 1 then Raises
      else Parsed [(str_of ''greeting'', str_of ''Bonjour {{name}}'')])"

text \<open>The slices of a list for a positive step, as a list.\<close>

definition slices :: "nat \<Rightarrow> 'a list \<Rightarrow> 'a list list" where
  "slices m xs =
     map (\<lambda>i. take m (drop i xs)) (map (\<lambda>j. j * m) [0 ..< (length xs + m - 1) div m])"

text \<open>The batches of a batch list that belong to one group.\<close>

definition batches_of ::
  "pystr \<times> pystr \<Rightarrow> TranslationTask list list \<Rightarrow> TranslationTask list list" where
  "batches_of g batches = filter (\<lambda>b. task_group (hd b) = g) batches"

text \<open>Tasks of one group, with the keys \<open>0\<close>, \<open>1\<close>, ...\<close>

definition example_tasks :: "nat \<Rightarrow> nat \<Rightarrow> TranslationTask list" where
  "example_tasks i j = map (\<lambda>n. example_task\<lparr>key := [n]\<rparr>) [i ..< j]"

text \<open>
  The exact quotient of the two lengths lies outside the interval from \<open>1 / tolerance\<close>
  to \<open>tolerance\<close>, for the tolerance of the length check.
\<close>

definition ratio_unusual :: "nat \<Rightarrow> nat \<Rightarrow> bool" where
  "ratio_unusual translated_length original_length =
     (let ratio = of_nat translated_length / of_nat original_length :: rat;
          tolerance = (if original_length \<le> 5 then 5 else 3) :: rat
      in ratio < 1 / tolerance \<or> tolerance < ratio)"

section \<open>Properties of the placeholder check\<close>

lemma fold_record_missing:
  "fold (record_missing tps) ps r =
     r\<lparr>is_valid := is_valid r \<and> (\<forall>p \<in> set ps. p \<in> set tps),
       errors := errors r @ map MissingPlaceholder (filter (\<lambda>p. p \<notin> set tps) ps)\<rparr>"
  by (induction ps arbitrary: r) (auto simp: record_missing_def)

lemma fold_record_extra:
  "fold (record_extra ops) ps r =
     r\<lparr>warnings := warnings r @ map ExtraPlaceholder (filter (\<lambda>p. p \<notin> set ops) ps)\<rparr>"
  by (induction ps arbitrary: r) (auto simp: record_extra_def)

lemma validate_placeholders_eq:
  "validate_placeholders original translated =
     \<lparr>is_valid = (\<forall>p \<in> set (findall_placeholders original). p \<in> set (findall_placeholders translated)),
      errors = map MissingPlaceholder
        (filter (\<lambda>p. p \<notin> set (findall_placeholders translated)) (findall_placeholders original)),
      warnings = map ExtraPlaceholder
        (filter (\<lambda>p. p \<notin> set (findall_placeholders original)) (findall_placeholders translated))\<rparr>"
  by (simp add: validate_placeholders_def Let_def fold_record_missing fold_record_extra valid_result_def)

lemma findall_placeholders_sublist:
  "p \<in> set (findall_placeholders s) \<Longrightarrow> sublist p s"
proof (induction s rule: findall_placeholders.induct)
  case 1
  then show ?case by simp
next
  case (2 c cs)
  show ?case
  proof (cases "match_placeholder (c # cs)")
    case None
    with "2.IH"(1) "2.prems" have "sublist p cs" by simp
    then show ?thesis by (simp add: sublist_Cons_right)
  next
    case (Some n)
    with "2.prems" have "p = take n (c # cs) \<or> p \<in> set (findall_placeholders (drop n (c # cs)))"
      by simp
    then show ?thesis
    proof
      assume "p = take n (c # cs)"
      then have "prefix p (c # cs)" by (simp add: take_is_prefix)
      then show ?thesis by (rule prefix_imp_sublist)
    next
      assume "p \<in> set (findall_placeholders (drop n (c # cs)))"
      with "2.IH"(2) Some have "sublist p (drop n (c # cs))" by blast
      moreover have "sublist (drop n (c # cs)) (c # cs)" by (rule sublist_drop)
      ultimately show ?thesis by (rule sublist_order.order.trans)
    qed
  qed
qed

text \<open>
  Claim C1, as amended. The placeholders of a text are the matches that the pattern
  extracts from it, from left to right and without overlap. The placeholder check is
  invalid exactly when some placeholder of the source is not among the placeholders of
  the translation; the errors are one message for each such placeholder of the source,
  the warnings one message for each placeholder of the translation that is not among
  those of the source, and a warning never makes the result invalid. For the source
  \<^verbatim>\<open>Hello {{name}}, you have {{count}} items\<close>, a translation of which
  \<^verbatim>\<open>{{count}}\<close> is not a placeholder (in particular one that does not contain it
  as a substring) is invalid, and a translation of which both source placeholders and
  \<^verbatim>\<open>{{extra}}\<close> are placeholders is valid, with a warning for
  \<^verbatim>\<open>{{extra}}\<close>.
\<close>

theorem validate_placeholders_spec:
  "(is_valid (validate_placeholders original translated) \<longleftrightarrow>
      (\<forall>p \<in> set (findall_placeholders original). p \<in> set (findall_placeholders translated)))
   \<and> errors (validate_placeholders original translated) =
       map MissingPlaceholder
         (filter (\<lambda>p. p \<notin> set (findall_placeholders translated)) (findall_placeholders original))
   \<and> warnings (validate_placeholders original translated) =
       map ExtraPlaceholder
         (filter (\<lambda>p. p \<notin> set (findall_placeholders original)) (findall_placeholders translated))
   \<and> (let source = str_of ''Hello {{name}}, you have {{count}} items'' in
        (str_of ''{{count}}'' \<notin> set (findall_placeholders translated) \<longrightarrow>
           \<not> is_valid (validate_placeholders source translated))
      \<and> (\<not> sublist (str_of ''{{count}}'') translated \<longrightarrow>
           \<not> is_valid (validate_placeholders source translated))
      \<and> ({str_of ''{{name}}'', str_of ''{{count}}'', str_of ''{{extra}}''}
            \<subseteq> set (findall_placeholders translated) \<longrightarrow>
           is_valid (validate_placeholders source translated)
           \<and> ExtraPlaceholder (str_of ''{{extra}}'')
                \<in> set (warnings (validate_placeholders source translated))))"
proof -
  have src: "findall_placeholders (str_of ''Hello {{name}}, you have {{count}} items'') =
      [str_of ''{{name}}'', str_of ''{{count}}'']"
    by code_simp
  have ne: "str_of ''{{extra}}'' \<noteq> str_of ''{{name}}''" "str_of ''{{extra}}'' \<noteq> str_of ''{{count}}''"
    by (simp_all add: str_of_def)
  have sub: "\<not> sublist (str_of ''{{count}}'') translated \<Longrightarrow>
      str_of ''{{count}}'' \<notin> set (findall_placeholders translated)"
    using findall_placeholders_sublist by blast
  show ?thesis
    using sub ne by (auto simp: validate_placeholders_eq src Let_def)
qed

theorem validate_placeholders_spec_witness:
  "\<not> is_valid (validate_placeholders (str_of ''Hello {{name}}, you have {{count}} items'')
       (str_of ''Hola {{name}}, tienes elementos''))
   \<and> is_valid (validate_placeholders (str_of ''Hello {{name}}, you have {{count}} items'')
       (str_of ''Hola {{name}}, tienes {{count}} elementos {{extra}}''))
   \<and> warnings (validate_placeholders (str_of ''Hello {{name}}, you have {{count}} items'')
       (str_of ''Hola {{name}}, tienes {{count}} elementos {{extra}}'')) =
       [ExtraPlaceholder (str_of ''{{extra}}'')]"
proof -
  have a: "findall_placeholders (str_of ''Hola {{name}}, tienes elementos'') = [str_of ''{{name}}'']"
    by code_simp
  have b: "findall_placeholders (str_of ''Hola {{name}}, tienes {{count}} elementos {{extra}}'') =
      [str_of ''{{name}}'', str_of ''{{count}}'', str_of ''{{extra}}'']"
    by code_simp
  have src: "findall_placeholders (str_of ''Hello {{name}}, you have {{count}} items'') =
      [str_of ''{{name}}'', str_of ''{{count}}'']"
    by code_simp
  have ne: "str_of ''{{extra}}'' \<noteq> str_of ''{{name}}''" "str_of ''{{extra}}'' \<noteq> str_of ''{{count}}''"
     "str_of ''{{count}}'' \<noteq> str_of ''{{name}}''"
    by (simp_all add: str_of_def)
  show ?thesis
    using validate_placeholders_spec [of "str_of ''Hello {{name}}, you have {{count}} items''"
        "str_of ''Hola {{name}}, tienes elementos''"]
      validate_placeholders_spec [of "str_of ''Hello {{name}}, you have {{count}} items''"
        "str_of ''Hola {{name}}, tienes {{count}} elementos {{extra}}''"]
    using ne by (simp add: a b src Let_def)
qed

text \<open>
  Claim C1 as stated fails: a placeholder that occurs verbatim in the translation need
  not be a placeholder of the translation, since a match can start at an earlier opening
  brace and swallow it. The translation below contains \<^verbatim>\<open>{{name}}\<close>,
  \<^verbatim>\<open>{{count}}\<close> and \<^verbatim>\<open>{{extra}}\<close> verbatim, and the check is invalid: the
  pattern extracts \<^verbatim>\<open>{{a{{name}}\<close> from it, not \<^verbatim>\<open>{{name}}\<close>.
\<close>

theorem validate_placeholders_verbatim_counterexample:
  "findall_placeholders (str_of ''Hello {{name}}, you have {{count}} items'') =
     [str_of ''{{name}}'', str_of ''{{count}}'']
   \<and> sublist (str_of ''{{name}}'')
        (str_of ''Hola {{a{{name}}, tienes {{count}} elementos {{extra}}'')
   \<and> sublist (str_of ''{{count}}'')
        (str_of ''Hola {{a{{name}}, tienes {{count}} elementos {{extra}}'')
   \<and> sublist (str_of ''{{extra}}'')
        (str_of ''Hola {{a{{name}}, tienes {{count}} elementos {{extra}}'')
   \<and> \<not> is_valid (validate_placeholders (str_of ''Hello {{name}}, you have {{count}} items'')
        (str_of ''Hola {{a{{name}}, tienes {{count}} elementos {{extra}}''))"
proof -
  have src: "findall_placeholders (str_of ''Hello {{name}}, you have {{count}} items'') =
      [str_of ''{{name}}'', str_of ''{{count}}'']"
    by code_simp
  have tr: "findall_placeholders (str_of ''Hola {{a{{name}}, tienes {{count}} elementos {{extra}}'') =
      [str_of ''{{a{{name}}'', str_of ''{{count}}'', str_of ''{{extra}}'']"
    by code_simp
  have "str_of ''Hola {{a{{name}}, tienes {{count}} elementos {{extra}}'' =
      str_of ''Hola {{a'' @ str_of ''{{name}}'' @ str_of '', tienes {{count}} elementos {{extra}}''"
    by (simp add: str_of_def)
  then have a: "sublist (str_of ''{{name}}'')
      (str_of ''Hola {{a{{name}}, tienes {{count}} elementos {{extra}}'')"
    by (simp only: sublist_appendI)
  have "str_of ''Hola {{a{{name}}, tienes {{count}} elementos {{extra}}'' =
      str_of ''Hola {{a{{name}}, tienes '' @ str_of ''{{count}}'' @ str_of '' elementos {{extra}}''"
    by (simp add: str_of_def)
  then have b: "sublist (str_of ''{{count}}'')
      (str_of ''Hola {{a{{name}}, tienes {{count}} elementos {{extra}}'')"
    by (simp only: sublist_appendI)
  have "str_of ''Hola {{a{{name}}, tienes {{count}} elementos {{extra}}'' =
      str_of ''Hola {{a{{name}}, tienes {{count}} elementos '' @ str_of ''{{extra}}'' @ []"
    by (simp add: str_of_def)
  then have c: "sublist (str_of ''{{extra}}'')
      (str_of ''Hola {{a{{name}}, tienes {{count}} elementos {{extra}}'')"
    by (simp only: sublist_appendI)
  have ne: "str_of ''{{name}}'' \<noteq> str_of ''{{a{{name}}''"
    "str_of ''{{name}}'' \<noteq> str_of ''{{count}}''"
    "str_of ''{{name}}'' \<noteq> str_of ''{{extra}}''"
    by (simp_all add: str_of_def)
  have "\<not> is_valid (validate_placeholders (str_of ''Hello {{name}}, you have {{count}} items'')
        (str_of ''Hola {{a{{name}}, tienes {{count}} elementos {{extra}}''))"
    using ne by (simp add: validate_placeholders_eq src tr)
  with src a b c show ?thesis by (intro conjI)
qed

section \<open>Properties of the combined validation\<close>

lemma validate_length_valid:
  "is_valid (validate_length original translated tolerance)
   \<and> errors (validate_length original translated tolerance) = []"
  by (simp add: validate_length_def valid_result_def Let_def)

lemma validate_no_english_remnants_valid:
  "is_valid (validate_no_english_remnants term_order original translated loc)
   \<and> errors (validate_no_english_remnants term_order original translated loc) = []"
  by (simp add: validate_no_english_remnants_def valid_result_def Let_def)

text \<open>
  Claim C6. The combined result of the three checks is valid iff each of the three
  results is valid; its errors and its warnings are those of the placeholder check, the
  length check and the script check, in this order; the length check and the script
  check always return a valid result, so the combined result is valid iff the
  placeholder check is.
\<close>

theorem validate_translation_combined:
  "is_valid (validate_translation term_order task translated) =
     (is_valid (validate_placeholders (english_value task) translated)
      \<and> is_valid (validate_length (english_value task) translated 3)
      \<and> is_valid (validate_no_english_remnants term_order (english_value task) translated
            (locale task)))
   \<and> errors (validate_translation term_order task translated) =
       errors (validate_placeholders (english_value task) translated)
       @ errors (validate_length (english_value task) translated 3)
       @ errors (validate_no_english_remnants term_order (english_value task) translated
            (locale task))
   \<and> warnings (validate_translation term_order task translated) =
       warnings (validate_placeholders (english_value task) translated)
       @ warnings (validate_length (english_value task) translated 3)
       @ warnings (validate_no_english_remnants term_order (english_value task) translated
            (locale task))
   \<and> is_valid (validate_length (english_value task) translated 3)
   \<and> is_valid (validate_no_english_remnants term_order (english_value task) translated
        (locale task))
   \<and> is_valid (validate_translation term_order task translated) =
       is_valid (validate_placeholders (english_value task) translated)"
  using validate_length_valid [of "english_value task" translated 3]
    validate_no_english_remnants_valid [of term_order "english_value task" translated "locale task"]
  by (simp add: validate_translation_def combine_def valid_result_def)

section \<open>Properties of the locale analyzer\<close>

lemma concat_map_single_key:
  "distinct (map fst xs) \<Longrightarrow>
   concat (map (\<lambda>(a, b). if a = k then h b else []) xs) =
     (case map_of xs k of None \<Rightarrow> [] | Some b \<Rightarrow> h b)"
proof (induction xs)
  case Nil
  then show ?case by simp
next
  case (Cons x xs)
  obtain a b where x: "x = (a, b)" by (cases x)
  show ?case
  proof (cases "a = k")
    case True
    with Cons.prems x have "k \<notin> fst ` set xs" by auto
    then have "concat (map (\<lambda>(a, b). if a = k then h b else []) xs) = []"
      by (auto simp: image_iff)
    with True x show ?thesis by simp
  next
    case False
    with Cons x show ?thesis by simp
  qed
qed

lemma tasks_for_analyze_other_file:
  "fst entry \<noteq> fname \<Longrightarrow> tasks_for fname k (analyze_file fs locale_dir loc entry) = []"
  by (cases entry)
     (auto simp: tasks_for_def analyze_file_def filter_empty_conv split: option.splits if_splits)

lemma tasks_for_analyze_file:
  assumes "distinct (map fst english)"
  shows "tasks_for fname k (analyze_file fs locale_dir loc (fname, english)) =
     (case map_of english k of
        None \<Rightarrow> []
      | Some v \<Rightarrow>
          (case files fs (locale_dir @ [fname]) of
             None \<Rightarrow> [\<lparr>locale = loc, file_name = fname, key = k, english_value = v,
                        is_missing = True\<rparr>]
           | Some locale_data \<Rightarrow>
               if map_of locale_data k = None then
                 [\<lparr>locale = loc, file_name = fname, key = k, english_value = v,
                   is_missing = True\<rparr>]
               else if map_of locale_data k = Some (JString []) then
                 [\<lparr>locale = loc, file_name = fname, key = k, english_value = v,
                   is_missing = False\<rparr>]
               else []))"
proof (cases "files fs (locale_dir @ [fname])")
  case None
  let ?h = "\<lambda>b. [\<lparr>locale = loc, file_name = fname, key = k, english_value = b,
      is_missing = True\<rparr>]"
  have "tasks_for fname k (analyze_file fs locale_dir loc (fname, english)) =
      concat (map (\<lambda>(a, b). if a = k then ?h b else []) english)"
    unfolding tasks_for_def analyze_file_def using None
    by (induction english) auto
  also have "\<dots> = (case map_of english k of None \<Rightarrow> [] | Some b \<Rightarrow> ?h b)"
    by (rule concat_map_single_key [OF assms])
  finally show ?thesis
    using None by (simp split: option.splits)
next
  case (Some locale_data)
  let ?h = "\<lambda>b. if map_of locale_data k = None then
        [\<lparr>locale = loc, file_name = fname, key = k, english_value = b, is_missing = True\<rparr>]
      else if map_of locale_data k = Some (JString []) then
        [\<lparr>locale = loc, file_name = fname, key = k, english_value = b, is_missing = False\<rparr>]
      else []"
  have "tasks_for fname k (analyze_file fs locale_dir loc (fname, english)) =
      concat (map (\<lambda>(a, b). if a = k then ?h b else []) english)"
    unfolding tasks_for_def analyze_file_def using Some
    by (induction english) auto
  also have "\<dots> = (case map_of english k of None \<Rightarrow> [] | Some b \<Rightarrow> ?h b)"
    by (rule concat_map_single_key [OF assms])
  finally show ?thesis
    using Some by (simp split: option.splits)
qed

lemma tasks_for_concat:
  "tasks_for fname k (concat xss) = concat (map (tasks_for fname k) xss)"
  by (induction xss) (simp_all add: tasks_for_def)

lemma tasks_for_analyze_files:
  assumes "distinct (map fst english_data)" and "map_of english_data fname = Some english"
  shows "tasks_for fname k (concat (map (analyze_file fs locale_dir loc) english_data)) =
     tasks_for fname k (analyze_file fs locale_dir loc (fname, english))"
proof -
  have "concat (map (tasks_for fname k \<circ> analyze_file fs locale_dir loc) english_data) =
      concat (map (\<lambda>(a, b). if a = fname
        then tasks_for fname k (analyze_file fs locale_dir loc (fname, b)) else []) english_data)"
    by (rule arg_cong [where f = concat], rule map_cong)
       (auto simp: tasks_for_analyze_other_file)
  also have "\<dots> = tasks_for fname k (analyze_file fs locale_dir loc (fname, english))"
    using concat_map_single_key [OF assms(1), of fname
        "\<lambda>b. tasks_for fname k (analyze_file fs locale_dir loc (fname, b))"] assms(2)
    by simp
  finally show ?thesis by (simp add: tasks_for_concat)
qed

text \<open>
  Claim C4. Let the locale directory and the locale file of a reference file exist. Then
  for every key the tasks that \<open>analyze_locale\<close> returns for this file and key are: for a
  key of the reference file, one task with the missing flag true when the key is absent
  from the locale file, one task with the missing flag false when its value there is the
  empty string, and none otherwise; for a key that is not in the reference file, none,
  whatever the locale file holds for it.
\<close>

theorem analyze_locale_existing_file:
  assumes "locales_dir @ [loc] \<in> dirs fs"
    and "files fs (locales_dir @ [loc, fname]) = Some locale_data"
    and "distinct (map fst english_data)"
    and "map_of english_data fname = Some english"
    and "distinct (map fst english)"
  shows "tasks_for fname k (analyze_locale locales_dir english_data fs loc) =
     (case map_of english k of
        None \<Rightarrow> []
      | Some v \<Rightarrow>
          if map_of locale_data k = None then
            [\<lparr>locale = loc, file_name = fname, key = k, english_value = v, is_missing = True\<rparr>]
          else if map_of locale_data k = Some (JString []) then
            [\<lparr>locale = loc, file_name = fname, key = k, english_value = v, is_missing = False\<rparr>]
          else [])"
proof -
  have "tasks_for fname k (analyze_locale locales_dir english_data fs loc) =
      tasks_for fname k (analyze_file fs (locales_dir @ [loc]) loc (fname, english))"
    using assms(1) tasks_for_analyze_files [OF assms(3,4)]
    by (simp add: analyze_locale_def)
  then show ?thesis
    using tasks_for_analyze_file [OF assms(5), of fname k fs "locales_dir @ [loc]" loc] assms(2)
    by (simp split: option.splits)
qed

lemma example_english_distinct:
  "distinct (map fst example_english)"
  "map_of example_english (str_of ''common.json'') =
     Some [(str_of ''greeting'', str_of ''Hello {{name}}''),
        (str_of ''farewell'', str_of ''Goodbye''),
        (str_of ''title'', str_of ''Chat'')]"
  "distinct (map fst [(str_of ''greeting'', str_of ''Hello {{name}}''),
        (str_of ''farewell'', str_of ''Goodbye''),
        (str_of ''title'', str_of ''Chat'')])"
  by (simp_all add: example_english_def str_of_def)

theorem analyze_locale_existing_file_witness:
  "tasks_for (str_of ''common.json'') (str_of ''title'')
     (analyze_locale LOCALES_DIR example_english example_fs (str_of ''fr'')) =
     [\<lparr>locale = str_of ''fr'', file_name = str_of ''common.json'', key = str_of ''title'',
       english_value = str_of ''Chat'', is_missing = True\<rparr>]
   \<and> tasks_for (str_of ''common.json'') (str_of ''farewell'')
     (analyze_locale LOCALES_DIR example_english example_fs (str_of ''fr'')) =
     [\<lparr>locale = str_of ''fr'', file_name = str_of ''common.json'', key = str_of ''farewell'',
       english_value = str_of ''Goodbye'', is_missing = False\<rparr>]
   \<and> tasks_for (str_of ''common.json'') (str_of ''greeting'')
     (analyze_locale LOCALES_DIR example_english example_fs (str_of ''fr'')) = []
   \<and> tasks_for (str_of ''common.json'') (str_of ''legacy'')
     (analyze_locale LOCALES_DIR example_english example_fs (str_of ''fr'')) = []"
proof -
  have d: "LOCALES_DIR @ [str_of ''fr''] \<in> dirs example_fs"
    by (simp add: example_fs_def)
  have f: "files example_fs (LOCALES_DIR @ [str_of ''fr'', str_of ''common.json'']) =
      Some [(str_of ''greeting'', JString (str_of ''Bonjour {{name}}'')),
          (str_of ''farewell'', JString []),
          (str_of ''legacy'', JString (str_of ''Ancien''))]"
    by (simp add: example_fs_def)
  note inst = analyze_locale_existing_file [OF d f example_english_distinct]
  show ?thesis
    using inst [of "str_of ''title''"] inst [of "str_of ''farewell''"]
      inst [of "str_of ''greeting''"] inst [of "str_of ''legacy''"]
    by (simp add: str_of_def)
qed



section \<open>Properties of the file updater\<close>

lemma map_of_dict_set: "map_of (dict_set k v d) = (map_of d)(k \<mapsto> v)"
  by (induction d) auto

lemma merge_entry_other:
  "k \<noteq> fst entry \<Longrightarrow> map_of (fst (merge_entry entry (data, n))) k = map_of data k"
  by (cases entry) (simp add: merge_entry_def map_of_dict_set)

lemma merge_entry_same:
  "map_of (fst (merge_entry (k, v) (data, n))) k =
     (if writable data k then Some (JString v) else map_of data k)"
  by (simp add: merge_entry_def map_of_dict_set writable_def)

lemma merge_entry_count:
  "snd (merge_entry (k, v) (data, n)) = (if writable data k then n + 1 else n)"
  by (simp add: merge_entry_def writable_def)

lemma fold_merge_entry_absent:
  "k \<notin> fst ` set incoming \<Longrightarrow>
   map_of (fst (fold merge_entry incoming (data, n))) k = map_of data k"
proof (induction incoming arbitrary: data n)
  case Nil
  then show ?case by simp
next
  case (Cons entry incoming)
  obtain data' n' where step: "merge_entry entry (data, n) = (data', n')"
    by (cases "merge_entry entry (data, n)")
  from Cons.prems have "k \<noteq> fst entry" and "k \<notin> fst ` set incoming" by auto
  with Cons.IH [of data' n'] merge_entry_other [of k entry data n] step
  show ?case by simp
qed

lemma fold_merge_entry_lookup:
  "distinct (map fst incoming) \<Longrightarrow>
   map_of (fst (fold merge_entry incoming (data, n))) k =
     (case map_of incoming k of
        None \<Rightarrow> map_of data k
      | Some v \<Rightarrow> if writable data k then Some (JString v) else map_of data k)"
proof (induction incoming arbitrary: data n)
  case Nil
  then show ?case by simp
next
  case (Cons entry incoming)
  obtain a b where entry: "entry = (a, b)" by (cases entry)
  obtain data' n' where step: "merge_entry (a, b) (data, n) = (data', n')"
    by (cases "merge_entry (a, b) (data, n)")
  from Cons.prems entry have d: "distinct (map fst incoming)"
    and a: "a \<notin> fst ` set incoming" by auto
  show ?case
  proof (cases "k = a")
    case True
    have "map_of (fst (fold merge_entry incoming (data', n'))) a = map_of data' a"
      using a by (rule fold_merge_entry_absent)
    with True entry step merge_entry_same [of a b data n] show ?thesis
      by (simp split: option.splits)
  next
    case False
    have same: "map_of data' k = map_of data k"
      using False merge_entry_other [of k "(a, b)" data n] step by simp
    then have "writable data' k = writable data k" by (simp add: writable_def)
    with False entry step same Cons.IH [OF d, of data' n'] show ?thesis
      by (simp split: option.splits)
  qed
qed

lemma fold_merge_entry_count:
  "distinct (map fst incoming) \<Longrightarrow>
   snd (fold merge_entry incoming (data, n)) =
     n + length (filter (\<lambda>(k, v). writable data k) incoming)"
proof (induction incoming arbitrary: data n)
  case Nil
  then show ?case by simp
next
  case (Cons entry incoming)
  obtain a b where entry: "entry = (a, b)" by (cases entry)
  obtain data' n' where step: "merge_entry (a, b) (data, n) = (data', n')"
    by (cases "merge_entry (a, b) (data, n)")
  from Cons.prems entry have d: "distinct (map fst incoming)"
    and a: "a \<notin> fst ` set incoming" by auto
  have "\<And>k v. (k, v) \<in> set incoming \<Longrightarrow> writable data' k = writable data k"
  proof -
    fix k v assume "(k, v) \<in> set incoming"
    with a have "k \<noteq> a" by force
    then have "map_of data' k = map_of data k"
      using merge_entry_other [of k "(a, b)" data n] step by simp
    then show "writable data' k = writable data k" by (simp add: writable_def)
  qed
  then have "filter (\<lambda>(k, v). writable data' k) incoming =
      filter (\<lambda>(k, v). writable data k) incoming"
    by (intro filter_cong) auto
  with entry step Cons.IH [OF d, of data' n'] merge_entry_count [of a b data n]
  show ?case by simp
qed

lemma fold_merge_entry_unchanged:
  "snd (fold merge_entry incoming (data, n)) = n \<Longrightarrow>
   fst (fold merge_entry incoming (data, n)) = data"
proof (induction incoming arbitrary: data n)
  case Nil
  then show ?case by simp
next
  case (Cons entry incoming)
  obtain data' n' where step: "merge_entry entry (data, n) = (data', n')"
    by (cases "merge_entry entry (data, n)")
  have mono: "\<And>d m. m \<le> snd (fold merge_entry incoming (d, m))"
  proof (induction incoming)
    case Nil
    then show ?case by simp
  next
    case (Cons e es)
    obtain d' m' where s: "merge_entry e (d, m) = (d', m')" by (cases "merge_entry e (d, m)")
    then have "m \<le> m'" by (cases e) (auto simp: merge_entry_def split: if_splits)
    with Cons [of m' d'] s show ?case by simp
  qed
  have "n \<le> n'" using step by (cases entry) (auto simp: merge_entry_def split: if_splits)
  moreover have "n' \<le> n" using Cons.prems step mono [of n' data'] by simp
  ultimately have "n' = n" by simp
  then have "data' = data" using step by (cases entry) (auto simp: merge_entry_def split: if_splits)
  with Cons.IH [of data' n'] Cons.prems step \<open>n' = n\<close> show ?case by simp
qed

lemma files_mkdir_parents: "files (mkdir_parents p fs) = files fs"
  by (simp add: mkdir_parents_def)

lemma files_backup_file: "files (backup_file backup_dir file_path fs) file_path = files fs file_path"
  by (auto simp: backup_file_def Let_def files_mkdir_parents split: option.splits)

lemma files_write_atomically: "files (write_atomically file_path data fs) file_path = Some data"
  by (simp add: write_atomically_def Let_def)

lemma update_locale_file_written:
  "files (snd (snd (update_locale_file backup_dir fs loc fname incoming False)))
     (LOCALES_DIR @ [loc, fname]) =
   (if snd (merge_translations (existing_data fs loc fname) incoming) > 0
    then Some (fst (merge_translations (existing_data fs loc fname) incoming))
    else files fs (LOCALES_DIR @ [loc, fname]))"
  by (cases "files fs (LOCALES_DIR @ [loc, fname])")
     (simp_all add: update_locale_file_def existing_data_def Let_def split_def
        files_write_atomically files_backup_file files_mkdir_parents)

text \<open>
  Claim C2. For an incoming dictionary merged into the existing one: a key of the merged
  dictionary holds the incoming text only if the key was absent from the existing
  dictionary or held the empty string there, and every other key, in particular every
  key with a non-empty existing value, keeps its existing value. When there is an update
  \<open>update_locale_file\<close> leaves the merged dictionary in the locale file, and otherwise
  it leaves the file as it was. Merging \<^verbatim>\<open>{"greeting": "Salut", "farewell": "Au revoir"}\<close>
  into \<^verbatim>\<open>{"greeting": "Bonjour"}\<close> gives
  \<^verbatim>\<open>{"greeting": "Bonjour", "farewell": "Au revoir"}\<close>.
\<close>

theorem update_locale_file_merge:
  assumes "distinct (map fst incoming)"
  shows "(\<forall>k. map_of (fst (merge_translations (existing_data fs loc fname) incoming)) k =
            (case map_of incoming k of
               None \<Rightarrow> map_of (existing_data fs loc fname) k
             | Some v \<Rightarrow>
                 if writable (existing_data fs loc fname) k then Some (JString v)
                 else map_of (existing_data fs loc fname) k))
     \<and> (\<forall>k. \<not> writable (existing_data fs loc fname) k \<longrightarrow>
            map_of (fst (merge_translations (existing_data fs loc fname) incoming)) k =
              map_of (existing_data fs loc fname) k)
     \<and> files (snd (snd (update_locale_file backup_dir fs loc fname incoming False)))
          (LOCALES_DIR @ [loc, fname]) =
        (if snd (merge_translations (existing_data fs loc fname) incoming) > 0
         then Some (fst (merge_translations (existing_data fs loc fname) incoming))
         else files fs (LOCALES_DIR @ [loc, fname]))
     \<and> (snd (merge_translations (existing_data fs loc fname) incoming) = 0 \<longrightarrow>
          fst (merge_translations (existing_data fs loc fname) incoming) =
            existing_data fs loc fname)
     \<and> fst (merge_translations [(str_of ''greeting'', JString (str_of ''Bonjour''))]
          [(str_of ''greeting'', str_of ''Salut''), (str_of ''farewell'', str_of ''Au revoir'')]) =
        [(str_of ''greeting'', JString (str_of ''Bonjour'')),
         (str_of ''farewell'', JString (str_of ''Au revoir''))]"
proof (intro conjI allI impI)
  fix k
  show "map_of (fst (merge_translations (existing_data fs loc fname) incoming)) k =
      (case map_of incoming k of
         None \<Rightarrow> map_of (existing_data fs loc fname) k
       | Some v \<Rightarrow>
           if writable (existing_data fs loc fname) k then Some (JString v)
           else map_of (existing_data fs loc fname) k)"
    unfolding merge_translations_def by (rule fold_merge_entry_lookup [OF assms])
next
  fix k
  assume "\<not> writable (existing_data fs loc fname) k"
  then show "map_of (fst (merge_translations (existing_data fs loc fname) incoming)) k =
      map_of (existing_data fs loc fname) k"
    unfolding merge_translations_def
    by (simp add: fold_merge_entry_lookup [OF assms] split: option.splits)
next
  show "files (snd (snd (update_locale_file backup_dir fs loc fname incoming False)))
          (LOCALES_DIR @ [loc, fname]) =
        (if snd (merge_translations (existing_data fs loc fname) incoming) > 0
         then Some (fst (merge_translations (existing_data fs loc fname) incoming))
         else files fs (LOCALES_DIR @ [loc, fname]))"
    by (rule update_locale_file_written)
next
  assume "snd (merge_translations (existing_data fs loc fname) incoming) = 0"
  then show "fst (merge_translations (existing_data fs loc fname) incoming) =
      existing_data fs loc fname"
    unfolding merge_translations_def by (rule fold_merge_entry_unchanged)
next
  show "fst (merge_translations [(str_of ''greeting'', JString (str_of ''Bonjour''))]
          [(str_of ''greeting'', str_of ''Salut''), (str_of ''farewell'', str_of ''Au revoir'')]) =
        [(str_of ''greeting'', JString (str_of ''Bonjour'')),
         (str_of ''farewell'', JString (str_of ''Au revoir''))]"
    by (simp add: merge_translations_def merge_entry_def str_of_def)
qed

theorem update_locale_file_merge_witness:
  "files (snd (snd (update_locale_file [str_of ''backups''] example_fs (str_of ''fr'')
       (str_of ''common.json'') example_incoming False)))
     (LOCALES_DIR @ [str_of ''fr'', str_of ''common.json'']) =
   Some [(str_of ''greeting'', JString (str_of ''Bonjour {{name}}'')),
         (str_of ''farewell'', JString (str_of ''Au revoir'')),
         (str_of ''legacy'', JString (str_of ''Ancien'')),
         (str_of ''title'', JString (str_of ''Discussion''))]"
proof -
  have d: "distinct (map fst example_incoming)"
    by (simp add: example_incoming_def str_of_def)
  have e: "existing_data example_fs (str_of ''fr'') (str_of ''common.json'') =
      [(str_of ''greeting'', JString (str_of ''Bonjour {{name}}'')),
       (str_of ''farewell'', JString []),
       (str_of ''legacy'', JString (str_of ''Ancien''))]"
    by (simp add: existing_data_def example_fs_def)
  have m: "merge_translations
      [(str_of ''greeting'', JString (str_of ''Bonjour {{name}}'')),
       (str_of ''farewell'', JString []),
       (str_of ''legacy'', JString (str_of ''Ancien''))] example_incoming =
      ([(str_of ''greeting'', JString (str_of ''Bonjour {{name}}'')),
         (str_of ''farewell'', JString (str_of ''Au revoir'')),
         (str_of ''legacy'', JString (str_of ''Ancien'')),
         (str_of ''title'', JString (str_of ''Discussion''))], 2)"
    by (simp add: merge_translations_def merge_entry_def example_incoming_def str_of_def)
  show ?thesis
    using update_locale_file_merge [OF d, of example_fs "str_of ''fr''" "str_of ''common.json''"
        "[str_of ''backups'']"]
    by (simp add: e m)
qed

text \<open>
  Claim C9. In dry-run mode \<open>update_locale_file\<close> returns the file system it was given:
  no file is written, no directory is created and no backup is made, whatever the
  incoming dictionary is. It still computes the merge, and when there is an update it
  reports the number of updates, which is the number of incoming keys that are absent or
  empty in the existing dictionary.
\<close>

theorem update_locale_file_dry_run:
  "update_locale_file backup_dir fs loc fname incoming True =
     (True,
      (if snd (merge_translations (existing_data fs loc fname) incoming) > 0
       then [WouldUpdate (LOCALES_DIR @ [loc, fname])
               (snd (merge_translations (existing_data fs loc fname) incoming))]
       else []),
      fs)
   \<and> (distinct (map fst incoming) \<longrightarrow>
        snd (merge_translations (existing_data fs loc fname) incoming) =
          length (filter (\<lambda>(k, v). writable (existing_data fs loc fname) k) incoming))"
proof (intro conjI impI)
  show "update_locale_file backup_dir fs loc fname incoming True =
     (True,
      (if snd (merge_translations (existing_data fs loc fname) incoming) > 0
       then [WouldUpdate (LOCALES_DIR @ [loc, fname])
               (snd (merge_translations (existing_data fs loc fname) incoming))]
       else []),
      fs)"
    by (cases "files fs (LOCALES_DIR @ [loc, fname])")
       (simp_all add: update_locale_file_def existing_data_def Let_def split_def)
next
  assume "distinct (map fst incoming)"
  then show "snd (merge_translations (existing_data fs loc fname) incoming) =
      length (filter (\<lambda>(k, v). writable (existing_data fs loc fname) k) incoming)"
    unfolding merge_translations_def by (simp add: fold_merge_entry_count)
qed

theorem update_locale_file_dry_run_witness:
  "update_locale_file [str_of ''backups''] example_fs (str_of ''fr'') (str_of ''common.json'')
       example_incoming True =
     (True, [WouldUpdate (LOCALES_DIR @ [str_of ''fr'', str_of ''common.json'']) 2], example_fs)"
proof -
  have d: "distinct (map fst example_incoming)"
    by (simp add: example_incoming_def str_of_def)
  have e: "existing_data example_fs (str_of ''fr'') (str_of ''common.json'') =
      [(str_of ''greeting'', JString (str_of ''Bonjour {{name}}'')),
       (str_of ''farewell'', JString []),
       (str_of ''legacy'', JString (str_of ''Ancien''))]"
    by (simp add: existing_data_def example_fs_def)
  have n: "length (filter (\<lambda>(k, v). writable
        [(str_of ''greeting'', JString (str_of ''Bonjour {{name}}'')),
         (str_of ''farewell'', JString []),
         (str_of ''legacy'', JString (str_of ''Ancien''))] k) example_incoming) = 2"
    by (simp add: writable_def example_incoming_def str_of_def)
  show ?thesis
    using update_locale_file_dry_run [of "[str_of ''backups'']" example_fs "str_of ''fr''"
        "str_of ''common.json''" example_incoming] d
    by (simp add: e n)
qed

section \<open>Properties of the translation engine\<close>

lemma validate_translation_valid_iff:
  "is_valid (validate_translation term_order task translated) =
     is_valid (validate_placeholders (english_value task) translated)"
  by (simp add: validate_translation_def combine_def valid_result_def validate_length_def
      validate_no_english_remnants_def Let_def)

lemma example_lossy_invalid:
  "\<not> is_valid (validate_translation [] example_task (str_of ''Bonjour''))"
proof -
  have "findall_placeholders (str_of ''Hello {{name}}'') = [str_of ''{{name}}'']"
    by code_simp
  moreover have "findall_placeholders (str_of ''Bonjour'') = []"
    by code_simp
  ultimately show ?thesis
    by (simp add: validate_translation_valid_iff validate_placeholders_eq example_task_def)
qed

lemma example_flaky_valid:
  "is_valid (validate_translation [] example_task (str_of ''Bonjour {{name}}''))"
proof -
  have "findall_placeholders (str_of ''Hello {{name}}'') = [str_of ''{{name}}'']"
    by code_simp
  moreover have "findall_placeholders (str_of ''Bonjour {{name}}'') = [str_of ''{{name}}'']"
    by code_simp
  ultimately show ?thesis
    by (simp add: validate_translation_valid_iff validate_placeholders_eq example_task_def)
qed

text \<open>
  Claim C3, on the code. With three attempts allowed, one task and a provider whose
  translation loses the placeholder, \<open>translate_batch\<close> sends one request, sleeps one
  second and returns no result: the \<open>continue\<close> goes on with the next pair of the same
  response, and the batch is not sent again. With a single attempt allowed the failed
  result is returned.
\<close>

theorem translate_batch_invalid_not_retried:
  "fst (translate_batch [] lossy_provider empty_engine [example_task] 3) = Inr []
   \<and> requests (snd (translate_batch [] lossy_provider empty_engine [example_task] 3)) =
       [example_request]
   \<and> sleeps (snd (translate_batch [] lossy_provider empty_engine [example_task] 3)) = [1]
   \<and> translation_cache (snd (translate_batch [] lossy_provider empty_engine [example_task] 3)) =
       Map.empty
   \<and> fst (translate_batch [] lossy_provider empty_engine [example_task] 1) =
       Inr [(example_task, str_of ''Bonjour'',
             validate_translation [] example_task (str_of ''Bonjour''))]
   \<and> \<not> is_valid (validate_translation [] example_task (str_of ''Bonjour''))"
proof -
  have three: "translate_batch [] lossy_provider empty_engine [example_task] 3 =
      (Inr [], empty_engine\<lparr>requests := [example_request], sleeps := [1]\<rparr>)"
    using example_lossy_invalid
    by (simp add: translate_batch_def attempts.simps [of _ _ 3 _ _ 0] empty_engine_def
        cache_key_def lossy_provider_def Let_def example_request_def example_task_def)
  have one: "fst (translate_batch [] lossy_provider empty_engine [example_task] 1) =
       Inr [(example_task, str_of ''Bonjour'',
             validate_translation [] example_task (str_of ''Bonjour''))]"
    using example_lossy_invalid
    by (simp add: translate_batch_def attempts.simps [of _ _ 1 _ _ 0] empty_engine_def
        cache_key_def lossy_provider_def Let_def)
  show ?thesis
    using three one example_lossy_invalid by (simp add: empty_engine_def)
qed

lemma process_translations_frame:
  "process_translations term_order retries_remain pairs (st, results) = (st', results') \<Longrightarrow>
   requests st' = requests st
   \<and> (\<forall>k. k \<notin> cache_key ` fst ` set pairs \<longrightarrow> translation_cache st' k = translation_cache st k)"
proof (induction pairs arbitrary: st results)
  case Nil
  then show ?case by simp
next
  case (Cons pair pairs)
  obtain task trans_item where pair: "pair = (task, trans_item)" by (cases pair)
  let ?validation = "validate_translation term_order task (snd trans_item)"
  show ?case
  proof (cases "\<not> is_valid ?validation \<and> retries_remain")
    case True
    with Cons.prems pair
    have "process_translations term_order retries_remain pairs
        (st\<lparr>sleeps := sleeps st @ [1]\<rparr>, results) = (st', results')"
      by (simp add: Let_def)
    from Cons.IH [OF this] pair show ?thesis by simp
  next
    case False
    with Cons.prems pair
    have "process_translations term_order retries_remain pairs
        (st\<lparr>translation_cache := (translation_cache st)(cache_key task \<mapsto> snd trans_item)\<rparr>,
         results @ [(task, snd trans_item, ?validation)]) = (st', results')"
      by (auto simp: Let_def)
    from Cons.IH [OF this] pair show ?thesis by simp
  qed
qed

lemma attempts_frame:
  "attempts term_order ask max_retries req uncached_tasks attempt st results = (r, st') \<Longrightarrow>
   (\<forall>k. k \<notin> cache_key ` set uncached_tasks \<longrightarrow> translation_cache st' k = translation_cache st k)
   \<and> (\<exists>n. requests st' = requests st @ replicate n req)"
proof (induction term_order ask max_retries req uncached_tasks attempt st results
    rule: attempts.induct)
  case (1 term_order ask max_retries req uncached_tasks attempt st results)
  let ?st = "st\<lparr>requests := requests st @ [req]\<rparr>"
  note eq = "1.prems" [unfolded attempts.simps [of term_order ask max_retries req uncached_tasks
        attempt st results]]
  show ?case
  proof (cases "attempt < max_retries")
    case False
    with eq have "st' = st" by simp
    then show ?thesis by simp
  next
    case True
    show ?thesis
    proof (cases "ask (requests ?st)")
      case Raises
      show ?thesis
      proof (cases "attempt < max_retries - 1")
        case retry: True
        with eq True Raises
        have "attempts term_order ask max_retries req uncached_tasks (attempt + 1)
            (?st\<lparr>sleeps := sleeps ?st @ [2 ^ nat attempt]\<rparr>) results = (r, st')"
          by (simp add: Let_def)
        from "1.IH"(1) [OF True refl Raises retry this]
        obtain n where
          c: "\<forall>k. k \<notin> cache_key ` set uncached_tasks \<longrightarrow>
                translation_cache st' k = translation_cache st k"
          and q: "requests st' = (requests st @ [req]) @ replicate n req"
          by auto
        from q have "requests st' = requests st @ replicate (Suc n) req" by simp
        with c show ?thesis by blast
      next
        case False
        with eq True Raises have "st' = ?st" by (simp add: Let_def)
        then have "requests st' = requests st @ replicate 1 req"
          and "translation_cache st' = translation_cache st"
          by simp_all
        then show ?thesis by metis
      qed
    next
      case NotParsed
      with eq True
      have "attempts term_order ask max_retries req uncached_tasks (attempt + 1) ?st results =
          (r, st')"
        by (simp add: Let_def)
      from "1.IH"(2) [OF True refl NotParsed this]
      obtain n where
        c: "\<forall>k. k \<notin> cache_key ` set uncached_tasks \<longrightarrow>
              translation_cache st' k = translation_cache st k"
        and q: "requests st' = (requests st @ [req]) @ replicate n req"
        by auto
      from q have "requests st' = requests st @ replicate (Suc n) req" by simp
      with c show ?thesis by blast
    next
      case (Parsed items)
      obtain st2 results2 where p: "process_translations term_order (attempt < max_retries - 1)
          (zip uncached_tasks items) (?st, results) = (st2, results2)"
        by (cases "process_translations term_order (attempt < max_retries - 1)
          (zip uncached_tasks items) (?st, results)")
      with eq True Parsed have "st' = st2" by (simp add: Let_def)
      from process_translations_frame [OF p]
      have q: "requests st2 = requests st @ [req]"
        and c: "\<forall>k. k \<notin> cache_key ` fst ` set (zip uncached_tasks items) \<longrightarrow>
            translation_cache st2 k = translation_cache st k"
        by simp_all
      have "fst ` set (zip uncached_tasks items) \<subseteq> set uncached_tasks"
        by (auto dest: set_zip_leftD)
      with c have "\<forall>k. k \<notin> cache_key ` set uncached_tasks \<longrightarrow>
            translation_cache st2 k = translation_cache st k"
        by blast
      moreover from q have "requests st2 = requests st @ replicate 1 req" by simp
      ultimately show ?thesis using \<open>st' = st2\<close> by blast
    qed
  qed
qed

text \<open>
  Claim C8, as amended. A call of \<open>translate_batch\<close> keeps every entry the cache held
  before it; a call whose tasks are all in the cache returns the cached translations
  with their validation and sends no request; every request a call sends is the one
  request for its tasks that are not in the cache, so a batch of one language never
  sends a triple that the cache already holds. (While a triple is not yet in the cache
  it can be sent more than once, since a failed attempt is repeated.)
\<close>

theorem translate_batch_cache:
  assumes "translate_batch term_order ask st tasks max_retries = (r, st')"
  shows "(\<forall>k v. translation_cache st k = Some v \<longrightarrow> translation_cache st' k = Some v)
     \<and> ((\<forall>t \<in> set tasks. translation_cache st (cache_key t) \<noteq> None) \<longrightarrow>
          st' = st
          \<and> r = Inr (map (\<lambda>t. (t, the (translation_cache st (cache_key t)),
                  validate_translation term_order t (the (translation_cache st (cache_key t)))))
                tasks))
     \<and> (\<exists>n. requests st' = requests st @ replicate n
          \<lparr>req_locale = locale (hd tasks), req_file_name = file_name (hd tasks),
           req_items = map (\<lambda>t. (key t, english_value t))
             (filter (\<lambda>t. translation_cache st (cache_key t) = None) tasks)\<rparr>)
     \<and> ((\<forall>t \<in> set tasks. locale t = l) \<and> translation_cache st (l, k, s) \<noteq> None \<longrightarrow>
          (\<forall>q \<in> set (new_requests st st'). \<not> request_for (l, k, s) q))"
proof -
  let ?cached = "\<lambda>t. translation_cache st (cache_key t) \<noteq> None"
  let ?uncached = "filter (\<lambda>t. \<not> ?cached t) tasks"
  let ?req = "\<lparr>req_locale = locale (hd tasks), req_file_name = file_name (hd tasks),
      req_items = map (\<lambda>t. (key t, english_value t)) ?uncached\<rparr>"
  let ?results = "map (\<lambda>t. (t, the (translation_cache st (cache_key t)),
      validate_translation term_order t (the (translation_cache st (cache_key t)))))
    (filter ?cached tasks)"
  have hits: "?uncached = [] \<Longrightarrow> st' = st \<and> r = Inr ?results"
    using assms by (cases "tasks = []") (auto simp: translate_batch_def Let_def)
  have frame: "(\<forall>k. k \<notin> cache_key ` set ?uncached \<longrightarrow>
        translation_cache st' k = translation_cache st k)
      \<and> (\<exists>n. requests st' = requests st @ replicate n ?req)"
  proof (cases "?uncached = []")
    case True
    with hits have "st' = st" by simp
    then have "requests st' = requests st @ replicate 0 ?req" by simp
    with \<open>st' = st\<close> show ?thesis by blast
  next
    case False
    then have "tasks \<noteq> []" by auto
    with False assms
    have "attempts term_order ask max_retries ?req ?uncached 0 st ?results = (r, st')"
      by (simp add: translate_batch_def Let_def)
    then show ?thesis by (rule attempts_frame)
  qed
  have mono: "\<forall>k v. translation_cache st k = Some v \<longrightarrow> translation_cache st' k = Some v"
  proof (intro allI impI)
    fix k v
    assume kv: "translation_cache st k = Some v"
    then have "k \<notin> cache_key ` set ?uncached" by auto
    with frame have "translation_cache st' k = translation_cache st k" by blast
    with kv show "translation_cache st' k = Some v" by simp
  qed
  have all_hits: "(\<forall>t \<in> set tasks. ?cached t) \<longrightarrow> st' = st \<and> r = Inr
      (map (\<lambda>t. (t, the (translation_cache st (cache_key t)),
          validate_translation term_order t (the (translation_cache st (cache_key t))))) tasks)"
  proof
    assume a: "\<forall>t \<in> set tasks. ?cached t"
    then have "?uncached = []" by (simp add: filter_empty_conv)
    moreover from a have "filter ?cached tasks = tasks" by (simp add: filter_id_conv)
    ultimately show "st' = st \<and> r = Inr
      (map (\<lambda>t. (t, the (translation_cache st (cache_key t)),
          validate_translation term_order t (the (translation_cache st (cache_key t))))) tasks)"
      using hits by simp
  qed
  from frame obtain n where n: "requests st' = requests st @ replicate n ?req" by blast
  have shape: "\<exists>n. requests st' = requests st @ replicate n
          \<lparr>req_locale = locale (hd tasks), req_file_name = file_name (hd tasks),
           req_items = map (\<lambda>t. (key t, english_value t))
             (filter (\<lambda>t. translation_cache st (cache_key t) = None) tasks)\<rparr>"
    using n by auto
  have not_sent: "(\<forall>t \<in> set tasks. locale t = l) \<and> translation_cache st (l, k, s) \<noteq> None \<longrightarrow>
      (\<forall>q \<in> set (new_requests st st'). \<not> request_for (l, k, s) q)"
  proof (intro impI ballI)
    fix q
    assume a: "(\<forall>t \<in> set tasks. locale t = l) \<and> translation_cache st (l, k, s) \<noteq> None"
      and q: "q \<in> set (new_requests st st')"
    from q n have "q = ?req" by (auto simp: new_requests_def)
    show "\<not> request_for (l, k, s) q"
    proof
      assume "request_for (l, k, s) q"
      with \<open>q = ?req\<close> have "(k, s) \<in> set (map (\<lambda>t. (key t, english_value t)) ?uncached)"
        by (simp add: request_for_def)
      then obtain t where t: "t \<in> set tasks" "\<not> ?cached t" "key t = k" "english_value t = s"
        by auto
      with a have "cache_key t = (l, k, s)" by (simp add: cache_key_def)
      with t(2) a show False by simp
    qed
  qed
  from mono all_hits shape not_sent show ?thesis by blast
qed

theorem translate_batch_cache_witness:
  "new_requests
     (snd (translate_batch [] flaky_provider empty_engine [example_task] 3))
     (snd (translate_batch [] flaky_provider
        (snd (translate_batch [] flaky_provider empty_engine [example_task] 3))
        [example_task] 3)) = []
   \<and> translation_cache
     (snd (translate_batch [] flaky_provider
        (snd (translate_batch [] flaky_provider empty_engine [example_task] 3))
        [example_task] 3)) (cache_key example_task) = Some (str_of ''Bonjour {{name}}'')
   \<and> filter (request_for (cache_key example_task))
       (new_requests
         (snd (translate_batch [] flaky_provider empty_engine [example_task] 3))
         (snd (translate_batch [] flaky_provider
            (snd (translate_batch [] flaky_provider empty_engine [example_task] 3))
            [example_task] 3))) = []"
proof -
  have first: "translate_batch [] flaky_provider empty_engine [example_task] 3 =
      (Inr [(example_task, str_of ''Bonjour {{name}}'',
             validate_translation [] example_task (str_of ''Bonjour {{name}}''))],
       \<lparr>translation_cache = [cache_key example_task \<mapsto> str_of ''Bonjour {{name}}''],
        requests = [example_request, example_request], sleeps = [1]\<rparr>)"
    using example_flaky_valid
    by (simp add: translate_batch_def attempts.simps [of _ _ 3 _ _ 0]
        attempts.simps [of _ _ 3 _ _ 1] empty_engine_def
        cache_key_def flaky_provider_def Let_def example_request_def example_task_def)
  let ?st = "\<lparr>translation_cache = [cache_key example_task \<mapsto> str_of ''Bonjour {{name}}''],
        requests = [example_request, example_request], sleeps = [1]\<rparr>"
  obtain r st' where second: "translate_batch [] flaky_provider ?st [example_task] 3 = (r, st')"
    by (cases "translate_batch [] flaky_provider ?st [example_task] 3")
  have hit: "\<forall>t \<in> set [example_task]. translation_cache ?st (cache_key t) \<noteq> None"
    by simp
  have same: "\<forall>t \<in> set [example_task]. locale t = str_of ''fr''"
    by (simp add: example_task_def)
  have held: "translation_cache ?st (str_of ''fr'', str_of ''greeting'', str_of ''Hello {{name}}'')
      \<noteq> None"
    by (simp add: cache_key_def example_task_def)
  from translate_batch_cache [OF second] hit have "st' = ?st" by blast
  moreover from translate_batch_cache [OF second, of "str_of ''fr''" "str_of ''greeting''"
      "str_of ''Hello {{name}}''"] same held
  have "\<forall>q \<in> set (new_requests ?st st'). \<not> request_for (cache_key example_task) q"
    by (simp add: cache_key_def example_task_def)
  then have "filter (request_for (cache_key example_task)) (new_requests ?st st') = []"
    by (simp add: filter_empty_conv)
  ultimately show ?thesis using first second by (simp add: new_requests_def)
qed

text \<open>
  Claim C8 as stated fails: the engine translates the same triple in two calls, in one
  run, and sends two requests for it, since the first attempt of the first call raises
  and is repeated.
\<close>

theorem translate_batch_two_requests:
  "\<not> length (filter (request_for (cache_key example_task))
       (requests (snd (translate_batch [] flaky_provider
          (snd (translate_batch [] flaky_provider empty_engine [example_task] 3))
          [example_task] 3)))) \<le> 1"
proof -
  have first: "translate_batch [] flaky_provider empty_engine [example_task] 3 =
      (Inr [(example_task, str_of ''Bonjour {{name}}'',
             validate_translation [] example_task (str_of ''Bonjour {{name}}''))],
       \<lparr>translation_cache = [cache_key example_task \<mapsto> str_of ''Bonjour {{name}}''],
        requests = [example_request, example_request], sleeps = [1]\<rparr>)"
    using example_flaky_valid
    by (simp add: translate_batch_def attempts.simps [of _ _ 3 _ _ 0]
        attempts.simps [of _ _ 3 _ _ 1] empty_engine_def
        cache_key_def flaky_provider_def Let_def example_request_def example_task_def)
  have second: "snd (translate_batch [] flaky_provider
       \<lparr>translation_cache = [cache_key example_task \<mapsto> str_of ''Bonjour {{name}}''],
        requests = [example_request, example_request], sleeps = [1]\<rparr> [example_task] 3) =
       \<lparr>translation_cache = [cache_key example_task \<mapsto> str_of ''Bonjour {{name}}''],
        requests = [example_request, example_request], sleeps = [1]\<rparr>"
    by (simp add: translate_batch_def Let_def)
  have "request_for (cache_key example_task) example_request"
    by (simp add: request_for_def cache_key_def example_task_def example_request_def)
  with first second show ?thesis by simp
qed

section \<open>Properties of the batcher\<close>

lemma slices_Nil: "0 < m \<Longrightarrow> slices m [] = []"
  by (simp add: slices_def)

lemma upt_Suc_shift: "[0 ..< Suc k] = 0 # map Suc [0 ..< k]"
  by (simp only: map_Suc_upt upt_conv_Cons [of 0 "Suc k"] zero_less_Suc)

lemma div_add_step: "0 < (m::nat) \<Longrightarrow> (a + m) div m = Suc (a div m)"
  by simp

lemma slices_count:
  assumes "0 < m" and "xs \<noteq> []"
  shows "(length xs + m - 1) div m = Suc ((length (drop m xs) + m - 1) div m)"
proof (cases "m \<le> length xs")
  case True
  then have "length xs + m - 1 = (length xs - m + m - 1) + m"
    using assms(1) by arith
  then have "(length xs + m - 1) div m = ((length xs - m + m - 1) + m) div m"
    by (rule arg_cong)
  also have "\<dots> = Suc ((length xs - m + m - 1) div m)"
    using assms(1) by (rule div_add_step)
  finally show ?thesis by simp
next
  case False
  have "0 < length xs" using assms(2) by simp
  with False have "m * 1 \<le> length xs + m - 1" and "length xs + m - 1 < m * Suc 1"
    by arith+
  then have "(length xs + m - 1) div m = 1"
    by (rule div_nat_eqI)
  moreover from False assms(1) have "(length (drop m xs) + m - 1) div m = 0"
    by simp
  ultimately show ?thesis by simp
qed

lemma slices_rec:
  assumes "0 < m" and "xs \<noteq> []"
  shows "slices m xs = take m xs # slices m (drop m xs)"
proof -
  let ?k = "(length (drop m xs) + m - 1) div m"
  have "slices m xs =
      map (\<lambda>i. take m (drop i xs)) (map (\<lambda>j. j * m) [0 ..< Suc ?k])"
    unfolding slices_def slices_count [OF assms] ..
  also have "\<dots> = take m xs #
      map (\<lambda>i. take m (drop i xs)) (map (\<lambda>j. j * m) (map Suc [0 ..< ?k]))"
    unfolding upt_Suc_shift by simp
  also have "map (\<lambda>i. take m (drop i xs)) (map (\<lambda>j. j * m) (map Suc [0 ..< ?k])) =
      map (\<lambda>i. take m (drop i (drop m xs))) (map (\<lambda>j. j * m) [0 ..< ?k])"
    by (simp add: add.commute)
  also have "\<dots> = slices m (drop m xs)"
    unfolding slices_def ..
  finally show ?thesis .
qed

lemma slices_properties:
  assumes "0 < m"
  shows "concat (slices m xs) = xs
     \<and> (\<forall>c \<in> set (slices m xs). c \<noteq> [] \<and> length c \<le> m \<and> set c \<subseteq> set xs)
     \<and> (\<forall>c \<in> set (butlast (slices m xs)). length c = m)"
proof (induction xs rule: length_induct)
  case (1 xs)
  show ?case
  proof (cases "xs = []")
    case True
    with assms show ?thesis by (simp add: slices_Nil)
  next
    case False
    have rec: "slices m xs = take m xs # slices m (drop m xs)"
      using assms False by (rule slices_rec)
    have "length (drop m xs) < length xs"
      using assms False by simp
    with 1 have ih: "concat (slices m (drop m xs)) = drop m xs"
      "\<forall>c \<in> set (slices m (drop m xs)). c \<noteq> [] \<and> length c \<le> m \<and> set c \<subseteq> set (drop m xs)"
      "\<forall>c \<in> set (butlast (slices m (drop m xs))). length c = m"
      by blast+
    have a: "concat (slices m xs) = xs"
      using rec ih(1) by simp
    have "take m xs \<noteq> []" using assms False by simp
    moreover have "set (take m xs) \<subseteq> set xs" by (rule set_take_subset)
    moreover have "\<And>c. set c \<subseteq> set (drop m xs) \<Longrightarrow> set c \<subseteq> set xs"
      using set_drop_subset by fast
    ultimately have b: "\<forall>c \<in> set (slices m xs). c \<noteq> [] \<and> length c \<le> m \<and> set c \<subseteq> set xs"
      using rec ih(2) by auto
    have c: "\<forall>c \<in> set (butlast (slices m xs)). length c = m"
    proof (cases "slices m (drop m xs) = []")
      case True
      with rec show ?thesis by simp
    next
      case nonempty: False
      then have "drop m xs \<noteq> []" using assms by (auto simp: slices_Nil)
      then have "length (take m xs) = m" by simp
      with rec nonempty ih(3) show ?thesis by simp
    qed
    from a b c show ?thesis by blast
  qed
qed

lemma chunks_positive: "0 < batch_size \<Longrightarrow> chunks batch_size xs = Inr (slices (nat batch_size) xs)"
  by (simp add: chunks_def range_from_zero_def slices_def)

lemma chunk_groups_positive:
  "0 < batch_size \<Longrightarrow>
   chunk_groups batch_size groups = Inr (concat (map (slices (nat batch_size)) groups))"
  by (induction groups) (simp_all add: chunks_positive)

lemma map_of_group_append:
  "map_of (group_append k x g) k' =
     (if k' = k then Some ((case map_of g k of None \<Rightarrow> [] | Some xs \<Rightarrow> xs) @ [x])
      else map_of g k')"
  by (induction g) auto

lemma keys_group_append:
  "map fst (group_append k x g) = (if k \<in> fst ` set g then map fst g else map fst g @ [k])"
  by (induction g) (force simp: image_iff)+

lemma distinct_group_append:
  "distinct (map fst g) \<Longrightarrow> distinct (map fst (group_append k x g))"
  by (simp add: keys_group_append)

lemma fold_group_distinct:
  "distinct (map fst g) \<Longrightarrow>
   distinct (map fst (fold (\<lambda>task grouped. group_append (f task) task grouped) ts g))"
  by (induction ts arbitrary: g) (simp_all add: distinct_group_append)

lemma fold_group_lookup:
  "map_of (fold (\<lambda>task grouped. group_append (f task) task grouped) ts g) k =
     (if filter (\<lambda>t. f t = k) ts = [] then map_of g k
      else Some ((case map_of g k of None \<Rightarrow> [] | Some xs \<Rightarrow> xs) @ filter (\<lambda>t. f t = k) ts))"
proof (induction ts arbitrary: g)
  case Nil
  then show ?case by simp
next
  case (Cons t ts)
  show ?case
    by (simp add: Cons.IH map_of_group_append)
qed

lemma group_tasks_lookup:
  "map_of (group_tasks tasks) g =
     (if filter (\<lambda>t. task_group t = g) tasks = [] then None
      else Some (filter (\<lambda>t. task_group t = g) tasks))"
  by (simp add: group_tasks_def fold_group_lookup)

lemma group_tasks_distinct: "distinct (map fst (group_tasks tasks))"
  by (simp add: group_tasks_def fold_group_distinct)

lemma group_tasks_entry:
  assumes "(g, xs) \<in> set (group_tasks tasks)"
  shows "xs = filter (\<lambda>t. task_group t = g) tasks"
proof -
  from assms group_tasks_distinct have "map_of (group_tasks tasks) g = Some xs"
    by (simp add: map_of_eq_Some_iff)
  then show ?thesis
    by (simp add: group_tasks_lookup split: if_splits)
qed

lemma fold_group_single:
  "\<forall>t \<in> set ts. f t = k \<Longrightarrow>
   fold (\<lambda>task grouped. group_append (f task) task grouped) ts [(k, xs)] = [(k, xs @ ts)]"
  by (induction ts arbitrary: xs) simp_all

lemma group_tasks_single:
  assumes "tasks \<noteq> []" and "\<forall>t \<in> set tasks. task_group t = g"
  shows "group_tasks tasks = [(g, tasks)]"
proof -
  from assms(1) obtain t ts where tasks: "tasks = t # ts" by (cases tasks) auto
  with assms(2) have "task_group t = g" and "\<forall>t \<in> set ts. task_group t = g" by simp_all
  then show ?thesis
    using fold_group_single [of ts task_group g "[t]"] tasks by (simp add: group_tasks_def)
qed

lemma batches_of_slices:
  assumes "0 < m" and "\<forall>t \<in> set xs. task_group t = g'"
  shows "batches_of g (slices m xs) = (if g' = g then slices m xs else [])"
proof -
  have "\<forall>c \<in> set (slices m xs). task_group (hd c) = g'"
  proof
    fix c assume "c \<in> set (slices m xs)"
    with slices_properties [OF assms(1), of xs] have "c \<noteq> []" and "set c \<subseteq> set xs" by blast+
    then have "hd c \<in> set xs" by (meson hd_in_set subsetD)
    with assms(2) show "task_group (hd c) = g'" by blast
  qed
  then show ?thesis
    by (auto simp: batches_of_def filter_empty_conv filter_id_conv)
qed

lemma batches_of_concat:
  "batches_of g (concat bss) = concat (map (batches_of g) bss)"
  by (induction bss) (simp_all add: batches_of_def)

lemma batches_of_group:
  assumes "0 < m"
  shows "batches_of g (concat (map (slices m) (map snd (group_tasks tasks)))) =
     slices m (filter (\<lambda>t. task_group t = g) tasks)"
proof -
  have "map (batches_of g) (map (slices m) (map snd (group_tasks tasks))) =
      map (\<lambda>entry. batches_of g (slices m (snd entry))) (group_tasks tasks)"
    by (simp add: comp_def)
  also have "\<dots> = map (\<lambda>(g', xs). if g' = g then slices m xs else []) (group_tasks tasks)"
  proof (rule map_cong [OF refl])
    fix entry assume e: "entry \<in> set (group_tasks tasks)"
    obtain g' xs where entry: "entry = (g', xs)" by (cases entry)
    with e have "xs = filter (\<lambda>t. task_group t = g') tasks" by (simp add: group_tasks_entry)
    then have "\<forall>t \<in> set xs. task_group t = g'" by simp
    from batches_of_slices [OF assms this, of g] entry
    show "batches_of g (slices m (snd entry)) =
        (case entry of (g', xs) \<Rightarrow> if g' = g then slices m xs else [])"
      by simp
  qed
  finally have "map (batches_of g) (map (slices m) (map snd (group_tasks tasks))) =
      map (\<lambda>(g', xs). if g' = g then slices m xs else []) (group_tasks tasks)" .
  then have "batches_of g (concat (map (slices m) (map snd (group_tasks tasks)))) =
      concat (map (\<lambda>(g', xs). if g' = g then slices m xs else []) (group_tasks tasks))"
    by (simp only: batches_of_concat)
  also have "\<dots> = (case map_of (group_tasks tasks) g of None \<Rightarrow> [] | Some xs \<Rightarrow> slices m xs)"
    by (rule concat_map_single_key [OF group_tasks_distinct])
  also have "\<dots> = slices m (filter (\<lambda>t. task_group t = g) tasks)"
    using assms by (simp add: group_tasks_lookup slices_Nil)
  finally show ?thesis .
qed

lemma slices_45_by_20:
  assumes "length xs = 45"
  shows "slices 20 xs = [take 20 xs, take 20 (drop 20 xs), drop 40 xs]"
proof -
  have "xs \<noteq> []" using assms by auto
  then have a: "slices 20 xs = take 20 xs # slices 20 (drop 20 xs)"
    by (intro slices_rec) simp_all
  have "drop 20 xs \<noteq> []" using assms by auto
  then have b: "slices 20 (drop 20 xs) = take 20 (drop 20 xs) # slices 20 (drop 20 (drop 20 xs))"
    by (intro slices_rec) simp_all
  have "drop 20 (drop 20 xs) \<noteq> []" using assms by auto
  then have c: "slices 20 (drop 20 (drop 20 xs)) =
      take 20 (drop 20 (drop 20 xs)) # slices 20 (drop 20 (drop 20 (drop 20 xs)))"
    by (intro slices_rec) simp_all
  have d: "slices 20 (drop 20 (drop 20 (drop 20 xs))) = []"
    using assms by (simp add: slices_Nil)
  have e: "take 20 (drop 20 (drop 20 xs)) = drop 40 xs"
    using assms by simp
  show ?thesis
    unfolding a b c d e ..
qed

text \<open>
  Claim C5. For a positive batch size the batcher returns batches such that: every batch
  is non-empty, no longer than the batch size, and holds tasks of one (language, file)
  group; the batches of a group, taken in order and put end to end, are the tasks of the
  group in the order of the task list; and of the batches of a group only the last can
  be shorter than the batch size. Forty-five tasks of one group with batch size 20 give
  the three batches of the first 20, the next 20 and the last 5 tasks.
\<close>

theorem group_tasks_into_batches_spec:
  assumes "0 < batch_size"
  shows "\<exists>batches. group_tasks_into_batches tasks batch_size = Inr batches
     \<and> (\<forall>b \<in> set batches. b \<noteq> [] \<and> int (length b) \<le> batch_size
           \<and> (\<forall>t \<in> set b. task_group t = task_group (hd b)))
     \<and> (\<forall>g. concat (batches_of g batches) = filter (\<lambda>t. task_group t = g) tasks)
     \<and> (\<forall>g. \<forall>b \<in> set (butlast (batches_of g batches)). int (length b) = batch_size)
     \<and> (length tasks = 45 \<and> batch_size = 20
          \<and> (\<forall>t \<in> set tasks. task_group t = task_group (hd tasks)) \<longrightarrow>
        batches = [take 20 tasks, take 20 (drop 20 tasks), drop 40 tasks]
        \<and> map length batches = [20, 20, 5])"
proof -
  let ?m = "nat batch_size"
  let ?batches = "concat (map (slices ?m) (map snd (group_tasks tasks)))"
  have m: "0 < ?m" using assms by simp
  have result: "group_tasks_into_batches tasks batch_size = Inr ?batches"
    using assms by (simp add: group_tasks_into_batches_def chunk_groups_positive)
  have each: "\<forall>b \<in> set ?batches. b \<noteq> [] \<and> int (length b) \<le> batch_size
      \<and> (\<forall>t \<in> set b. task_group t = task_group (hd b))"
  proof
    fix b assume "b \<in> set ?batches"
    then obtain g xs where entry: "(g, xs) \<in> set (group_tasks tasks)"
      and b: "b \<in> set (slices ?m xs)"
      by force
    from entry have "xs = filter (\<lambda>t. task_group t = g) tasks" by (rule group_tasks_entry)
    then have grp: "\<forall>t \<in> set xs. task_group t = g" by simp
    from slices_properties [OF m, of xs] b
    have ne: "b \<noteq> []" and le: "length b \<le> ?m" and sub: "set b \<subseteq> set xs" by blast+
    from ne have "hd b \<in> set b" by simp
    with sub grp have first: "task_group (hd b) = g" by blast
    show "b \<noteq> [] \<and> int (length b) \<le> batch_size
      \<and> (\<forall>t \<in> set b. task_group t = task_group (hd b))"
    proof (intro conjI ballI)
      show "b \<noteq> []" by (rule ne)
      show "int (length b) \<le> batch_size" using le assms by linarith
      fix t assume "t \<in> set b"
      with sub grp have "task_group t = g" by blast
      with first show "task_group t = task_group (hd b)" by (simp only:)
    qed
  qed
  have order: "\<forall>g. concat (batches_of g ?batches) = filter (\<lambda>t. task_group t = g) tasks"
  proof
    fix g
    have "batches_of g ?batches = slices ?m (filter (\<lambda>t. task_group t = g) tasks)"
      by (rule batches_of_group [OF m])
    moreover have "concat (slices ?m (filter (\<lambda>t. task_group t = g) tasks)) =
        filter (\<lambda>t. task_group t = g) tasks"
      using slices_properties [OF m, of "filter (\<lambda>t. task_group t = g) tasks"] by (rule conjunct1)
    ultimately show "concat (batches_of g ?batches) = filter (\<lambda>t. task_group t = g) tasks"
      by (simp only:)
  qed
  have full: "\<forall>g. \<forall>b \<in> set (butlast (batches_of g ?batches)). int (length b) = batch_size"
  proof (intro allI ballI)
    fix g b
    assume b: "b \<in> set (butlast (batches_of g ?batches))"
    have "batches_of g ?batches = slices ?m (filter (\<lambda>t. task_group t = g) tasks)"
      by (rule batches_of_group [OF m])
    with b have "b \<in> set (butlast (slices ?m (filter (\<lambda>t. task_group t = g) tasks)))"
      by (simp only:)
    with slices_properties [OF m, of "filter (\<lambda>t. task_group t = g) tasks"]
    have "length b = ?m" by blast
    with assms show "int (length b) = batch_size" by simp
  qed
  have example: "length tasks = 45 \<and> batch_size = 20
          \<and> (\<forall>t \<in> set tasks. task_group t = task_group (hd tasks)) \<longrightarrow>
        ?batches = [take 20 tasks, take 20 (drop 20 tasks), drop 40 tasks]
        \<and> map length ?batches = [20, 20, 5]"
  proof
    assume a: "length tasks = 45 \<and> batch_size = 20
          \<and> (\<forall>t \<in> set tasks. task_group t = task_group (hd tasks))"
    then have len: "length tasks = 45" and size: "batch_size = 20"
      and grp: "\<forall>t \<in> set tasks. task_group t = task_group (hd tasks)"
      by blast+
    from len have "tasks \<noteq> []" by auto
    then have "group_tasks tasks = [(task_group (hd tasks), tasks)]"
      using grp by (rule group_tasks_single)
    then have "?batches = slices ?m tasks" by simp
    also have "\<dots> = slices 20 tasks" using size by simp
    also have "\<dots> = [take 20 tasks, take 20 (drop 20 tasks), drop 40 tasks]"
      using len by (rule slices_45_by_20)
    finally have shape: "?batches = [take 20 tasks, take 20 (drop 20 tasks), drop 40 tasks]" .
    have "map length [take 20 tasks, take 20 (drop 20 tasks), drop 40 tasks] = [20, 20, 5]"
      using len by simp
    with shape show "?batches = [take 20 tasks, take 20 (drop 20 tasks), drop 40 tasks]
        \<and> map length ?batches = [20, 20, 5]" by (simp only:)
  qed
  show ?thesis
    by (intro exI [of _ ?batches] conjI) (rule result each order full example)+
qed

theorem group_tasks_into_batches_spec_witness:
  "group_tasks_into_batches (example_tasks 0 45) 20 =
     Inr [example_tasks 0 20, example_tasks 20 40, example_tasks 40 45]"
proof -
  have len: "length (example_tasks 0 45) = 45"
    by (simp add: example_tasks_def)
  have all: "\<forall>t \<in> set (example_tasks 0 45). task_group t = task_group example_task"
    by (simp add: example_tasks_def task_group_def)
  have "example_tasks 0 45 \<noteq> []"
    using len by (cases "example_tasks 0 45") simp_all
  then have first: "hd (example_tasks 0 45) \<in> set (example_tasks 0 45)"
    by (rule hd_in_set)
  have grp: "\<forall>t \<in> set (example_tasks 0 45).
      task_group t = task_group (hd (example_tasks 0 45))"
  proof
    fix t assume "t \<in> set (example_tasks 0 45)"
    with all have "task_group t = task_group example_task" by (rule bspec)
    moreover from all first have "task_group (hd (example_tasks 0 45)) = task_group example_task"
      by (rule bspec)
    ultimately show "task_group t = task_group (hd (example_tasks 0 45))" by (simp only:)
  qed
  have parts: "take 20 (example_tasks 0 45) = example_tasks 0 20"
    "take 20 (drop 20 (example_tasks 0 45)) = example_tasks 20 40"
    "drop 40 (example_tasks 0 45) = example_tasks 40 45"
    by (simp_all add: example_tasks_def take_map drop_map)
  have hyp: "length (example_tasks 0 45) = 45 \<and> (20::int) = 20
          \<and> (\<forall>t \<in> set (example_tasks 0 45).
                task_group t = task_group (hd (example_tasks 0 45)))"
    using len grp by (intro conjI refl)
  have "0 < (20::int)" by simp
  from group_tasks_into_batches_spec [OF this, of "example_tasks 0 45"] show ?thesis
  proof (elim exE conjE)
    fix batches
    assume r: "group_tasks_into_batches (example_tasks 0 45) 20 = Inr batches"
      and e: "length (example_tasks 0 45) = 45 \<and> (20::int) = 20
          \<and> (\<forall>t \<in> set (example_tasks 0 45).
                task_group t = task_group (hd (example_tasks 0 45))) \<longrightarrow>
        batches = [take 20 (example_tasks 0 45), take 20 (drop 20 (example_tasks 0 45)),
           drop 40 (example_tasks 0 45)]
        \<and> map length batches = [20, 20, 5]"
    from e hyp have "batches = [take 20 (example_tasks 0 45),
        take 20 (drop 20 (example_tasks 0 45)), drop 40 (example_tasks 0 45)]
      \<and> map length batches = [20, 20, 5]"
      by (rule mp)
    then have "batches = [take 20 (example_tasks 0 45),
        take 20 (drop 20 (example_tasks 0 45)), drop 40 (example_tasks 0 45)]"
      by (rule conjunct1)
    with r show ?thesis by (simp only: parts)
  qed
qed

section \<open>Properties of the floating-point model\<close>

lemma round_half_even_of_int: "round_half_even (of_int n) = n"
  by (simp add: round_half_even_def)

lemma round_half_even_mono:
  assumes "y \<le> y'"
  shows "round_half_even y \<le> round_half_even y'"
proof (cases "\<lfloor>y\<rfloor> = \<lfloor>y'\<rfloor>")
  case True
  with assms have "y - of_int \<lfloor>y\<rfloor> \<le> y' - of_int \<lfloor>y'\<rfloor>" by simp
  with True show ?thesis
    by (auto simp: round_half_even_def Let_def)
next
  case False
  with assms have "\<lfloor>y\<rfloor> < \<lfloor>y'\<rfloor>"
    using floor_mono [of y y'] by linarith
  moreover have "round_half_even y \<le> \<lfloor>y\<rfloor> + 1"
    by (simp add: round_half_even_def Let_def)
  moreover have "\<lfloor>y'\<rfloor> \<le> round_half_even y'"
    by (simp add: round_half_even_def Let_def)
  ultimately show ?thesis by linarith
qed

lemma powi_divide: "(2::rat) powi a / 2 powi b = 2 powi (a - b)"
  by (simp add: power_int_diff)

lemma binade_bounds:
  assumes "0 < x"
  shows "2 powi (binade x) \<le> x \<and> x < 2 powi (binade x + 1)"
proof -
  obtain p q where pq: "quotient_of x = (p, q)" by (cases "quotient_of x")
  then have q: "0 < q" by (rule quotient_of_denom_pos)
  from pq have x: "x = of_int p / of_int q" by (rule quotient_of_div)
  with assms q have p: "0 < p" by (simp add: zero_less_divide_iff)
  let ?bp = "bitlen p" and ?bq = "bitlen q"
  from bitlen_bounds [OF p] have "2 ^ nat (?bp - 1) \<le> p" and "p < 2 ^ nat ?bp" by simp_all
  then have "(2::rat) ^ nat (?bp - 1) \<le> of_int p" and "of_int p < (2::rat) ^ nat ?bp"
    by (metis of_int_le_iff of_int_numeral of_int_power, metis of_int_less_iff of_int_numeral of_int_power)
  moreover have "1 \<le> ?bp" using p by (simp add: bitlen_alt_def)
  ultimately have pl: "(2::rat) powi (?bp - 1) \<le> of_int p" and pu: "of_int p < (2::rat) powi ?bp"
    by (simp_all add: power_int_def)
  from bitlen_bounds [OF q] have "2 ^ nat (?bq - 1) \<le> q" and "q < 2 ^ nat ?bq" by simp_all
  then have "(2::rat) ^ nat (?bq - 1) \<le> of_int q" and "of_int q < (2::rat) ^ nat ?bq"
    by (metis of_int_le_iff of_int_numeral of_int_power, metis of_int_less_iff of_int_numeral of_int_power)
  moreover have "1 \<le> ?bq" using q by (simp add: bitlen_alt_def)
  ultimately have ql: "(2::rat) powi (?bq - 1) \<le> of_int q" and qu: "of_int q < (2::rat) powi ?bq"
    by (simp_all add: power_int_def)
  let ?d = "?bp - ?bq"
  have "x < 2 powi ?bp / 2 powi (?bq - 1)"
    unfolding x using pu ql p by (intro frac_less) simp_all
  also have "\<dots> = 2 powi (?bp - (?bq - 1))"
    by (rule powi_divide)
  also have "?bp - (?bq - 1) = ?d + 1"
    by simp
  finally have upper: "x < 2 powi (?d + 1)" .
  have "2 powi (?bp - 1) / 2 powi ?bq \<le> x"
    unfolding x using pl qu q p by (intro frac_le) simp_all
  moreover have "2 powi (?bp - 1) / 2 powi ?bq = (2::rat) powi (?bp - 1 - ?bq)"
    by (rule powi_divide)
  moreover have "?bp - 1 - ?bq = ?d - 1"
    by simp
  ultimately have lower: "2 powi (?d - 1) \<le> x" by (simp only:)
  show ?thesis
  proof (cases "2 powi ?d \<le> x")
    case True
    with pq have "binade x = ?d" by (simp add: binade_def)
    with True upper show ?thesis by simp
  next
    case False
    with pq have "binade x = ?d - 1" by (simp add: binade_def)
    with False lower show ?thesis by simp
  qed
qed

lemma binade_mono:
  assumes "0 < x" and "x \<le> y"
  shows "binade x \<le> binade y"
proof (rule ccontr)
  assume "\<not> binade x \<le> binade y"
  then have "binade y + 1 \<le> binade x" by simp
  then have "(2::rat) powi (binade y + 1) \<le> 2 powi (binade x)"
    by (intro power_int_increasing) simp_all
  also have "\<dots> \<le> x" using binade_bounds [OF assms(1)] by simp
  also have "\<dots> \<le> y" by (rule assms(2))
  also have "\<dots> < 2 powi (binade y + 1)"
    using binade_bounds [of y] assms by simp
  finally show False by simp
qed

lemma powi_mult: "(2::rat) powi a * 2 powi b = 2 powi (a + b)"
  by (simp add: power_int_add)

lemma scaled_bounds:
  assumes "0 < x"
  shows "of_int (2 ^ 52) \<le> x * 2 powi (52 - binade x)
     \<and> x * 2 powi (52 - binade x) \<le> of_int (2 ^ 53)"
proof -
  let ?e = "binade x"
  have pos: "(0::rat) \<le> 2 powi (52 - ?e)" by simp
  from binade_bounds [OF assms] have l: "2 powi ?e \<le> x" and u: "x \<le> 2 powi (?e + 1)" by simp_all
  have "2 powi ?e * 2 powi (52 - ?e) = (2::rat) powi (?e + (52 - ?e))"
    by (rule powi_mult)
  also have "?e + (52 - ?e) = 52" by simp
  also have "(2::rat) powi 52 = of_int (2 ^ 52)" by simp
  finally have a: "2 powi ?e * 2 powi (52 - ?e) = (of_int (2 ^ 52) :: rat)" .
  have "2 powi (?e + 1) * 2 powi (52 - ?e) = (2::rat) powi (?e + 1 + (52 - ?e))"
    by (rule powi_mult)
  also have "?e + 1 + (52 - ?e) = 53" by simp
  also have "(2::rat) powi 53 = of_int (2 ^ 53)" by simp
  finally have b: "2 powi (?e + 1) * 2 powi (52 - ?e) = (of_int (2 ^ 53) :: rat)" .
  from l pos have "2 powi ?e * 2 powi (52 - ?e) \<le> x * 2 powi (52 - ?e)"
    by (rule mult_right_mono)
  moreover from u pos have "x * 2 powi (52 - ?e) \<le> 2 powi (?e + 1) * 2 powi (52 - ?e)"
    by (rule mult_right_mono)
  ultimately show ?thesis unfolding a b by (rule conjI)
qed

lemma round_double_bounds:
  assumes "0 < x"
  shows "2 powi (binade x) \<le> round_double x \<and> round_double x \<le> 2 powi (binade x + 1)"
proof -
  let ?e = "binade x"
  let ?n = "round_half_even (x * 2 powi (52 - ?e))"
  have rd: "round_double x = of_int ?n * 2 powi (?e - 52)"
    using assms by (simp add: round_double_def Let_def)
  from scaled_bounds [OF assms]
  have sl: "of_int (2 ^ 52) \<le> x * 2 powi (52 - ?e)" and su: "x * 2 powi (52 - ?e) \<le> of_int (2 ^ 53)"
    by (rule conjunct1, rule conjunct2)
  from sl have "round_half_even (of_int (2 ^ 52)) \<le> ?n" by (rule round_half_even_mono)
  then have "2 ^ 52 \<le> ?n" by (simp only: round_half_even_of_int)
  then have l: "(of_int (2 ^ 52) :: rat) \<le> of_int ?n" by (simp only: of_int_le_iff)
  from su have "?n \<le> round_half_even (of_int (2 ^ 53))" by (rule round_half_even_mono)
  then have "?n \<le> 2 ^ 53" by (simp only: round_half_even_of_int)
  then have u: "(of_int ?n :: rat) \<le> of_int (2 ^ 53)" by (simp only: of_int_le_iff)
  have pos: "(0::rat) \<le> 2 powi (?e - 52)" by simp
  have "(of_int (2 ^ 52) :: rat) = 2 powi 52" by simp
  then have "of_int (2 ^ 52) * 2 powi (?e - 52) = (2::rat) powi 52 * 2 powi (?e - 52)"
    by (simp only:)
  also have "\<dots> = 2 powi (52 + (?e - 52))" by (rule powi_mult)
  also have "52 + (?e - 52) = ?e" by simp
  finally have a: "of_int (2 ^ 52) * 2 powi (?e - 52) = (2::rat) powi ?e" .
  have "(of_int (2 ^ 53) :: rat) = 2 powi 53" by simp
  then have "of_int (2 ^ 53) * 2 powi (?e - 52) = (2::rat) powi 53 * 2 powi (?e - 52)"
    by (simp only:)
  also have "\<dots> = 2 powi (53 + (?e - 52))" by (rule powi_mult)
  also have "53 + (?e - 52) = ?e + 1" by simp
  finally have b: "of_int (2 ^ 53) * 2 powi (?e - 52) = (2::rat) powi (?e + 1)" .
  from l pos have "of_int (2 ^ 52) * (2::rat) powi (?e - 52) \<le> of_int ?n * 2 powi (?e - 52)"
    by (rule mult_right_mono)
  moreover from u pos
  have "of_int ?n * (2::rat) powi (?e - 52) \<le> of_int (2 ^ 53) * 2 powi (?e - 52)"
    by (rule mult_right_mono)
  ultimately show ?thesis unfolding rd a b by (rule conjI)
qed

lemma round_double_nonneg: "0 \<le> round_double x"
proof (cases "0 < x")
  case True
  have "(0::rat) \<le> 2 powi (binade x)" by simp
  with round_double_bounds [OF True] show ?thesis by linarith
next
  case False
  then show ?thesis by (simp add: round_double_def)
qed

lemma round_double_mono:
  assumes "x \<le> y"
  shows "round_double x \<le> round_double y"
proof (cases "0 < x")
  case False
  then have "round_double x = 0" by (simp add: round_double_def)
  with round_double_nonneg [of y] show ?thesis by simp
next
  case True
  with assms have y: "0 < y" by simp
  let ?ex = "binade x" and ?ey = "binade y"
  have le: "?ex \<le> ?ey" using True assms by (rule binade_mono)
  show ?thesis
  proof (cases "?ex = ?ey")
    case same: True
    have "x * 2 powi (52 - ?ex) \<le> y * 2 powi (52 - ?ex)"
      using assms by (simp add: mult_right_mono)
    then have "round_half_even (x * 2 powi (52 - ?ex)) \<le> round_half_even (y * 2 powi (52 - ?ex))"
      by (rule round_half_even_mono)
    then have "(of_int (round_half_even (x * 2 powi (52 - ?ex))) :: rat)
        \<le> of_int (round_half_even (y * 2 powi (52 - ?ex)))"
      by simp
    then have "of_int (round_half_even (x * 2 powi (52 - ?ex))) * (2::rat) powi (?ex - 52)
        \<le> of_int (round_half_even (y * 2 powi (52 - ?ex))) * 2 powi (?ex - 52)"
      by (rule mult_right_mono) simp
    with True y same show ?thesis by (simp add: round_double_def Let_def)
  next
    case False
    with le have "?ex + 1 \<le> ?ey" by simp
    then have "(2::rat) powi (?ex + 1) \<le> 2 powi ?ey"
      by (intro power_int_increasing) simp_all
    with round_double_bounds [OF True] round_double_bounds [OF y] show ?thesis by linarith
  qed
qed

lemma round_double_constants:
  "round_double 0 = 0"
  "round_double 3 = 3"
  "round_double 5 = 5"
  "round_double (6755399441055745 / 2251799813685248) = 6755399441055745 / 2251799813685248"
  "round_double (41 / 8) = 41 / 8"
  "round_double (1 / 3) = 6004799503160661 / 18014398509481984"
  "round_double (6004799503160660 / 18014398509481984) = 6004799503160660 / 18014398509481984"
  "round_double (1 / 5) = 3602879701896397 / 18014398509481984"
  by code_simp+

section \<open>Properties of the length check\<close>

lemma ratio_le_iff:
  assumes "0 < n" and "0 < (b::nat)"
  shows "((of_nat t :: rat) / of_nat n \<le> of_nat a / of_nat b) = (t * b \<le> a * n)"
proof -
  have "((of_nat t :: rat) / of_nat n \<le> of_nat a / of_nat b) =
      ((of_nat t :: rat) * of_nat b \<le> of_nat a * of_nat n)"
    using assms by (simp add: field_simps)
  also have "\<dots> = ((of_nat (t * b) :: rat) \<le> of_nat (a * n))"
    by simp
  also have "\<dots> = (t * b \<le> a * n)"
    by (rule of_nat_le_iff)
  finally show ?thesis .
qed

lemma ratio_less_iff:
  assumes "0 < n" and "0 < (b::nat)"
  shows "((of_nat t :: rat) / of_nat n < of_nat a / of_nat b) = (t * b < a * n)"
proof -
  have "((of_nat t :: rat) / of_nat n < of_nat a / of_nat b) =
      ((of_nat t :: rat) * of_nat b < of_nat a * of_nat n)"
    using assms by (simp add: field_simps)
  also have "\<dots> = ((of_nat (t * b) :: rat) < of_nat (a * n))"
    by simp
  also have "\<dots> = (t * b < a * n)"
    by (rule of_nat_less_iff)
  finally show ?thesis .
qed

lemma ratio_ge_iff:
  assumes "0 < n" and "0 < (b::nat)"
  shows "((of_nat a :: rat) / of_nat b \<le> of_nat t / of_nat n) = (a * n \<le> t * b)"
  using ratio_less_iff [OF assms, of t a] by (simp add: not_less [symmetric])

lemma ratio_gt_iff:
  assumes "0 < n" and "0 < (b::nat)"
  shows "((of_nat a :: rat) / of_nat b < of_nat t / of_nat n) = (a * n < t * b)"
  using ratio_le_iff [OF assms, of t a] by (simp add: not_le [symmetric])

lemma ratio_above_3:
  assumes "0 < n" and "n \<le> 2 ^ 51"
  shows "(round_double (of_nat t / of_nat n) > 3) = (3 * n < t)"
proof (cases "3 * n < t")
  case True
  let ?u = "6755399441055745 / 2251799813685248 :: rat"
  from True assms(2) have "6755399441055745 * n \<le> t * 2251799813685248" by simp
  with ratio_ge_iff [OF assms(1), of 2251799813685248 6755399441055745 t]
  have "?u \<le> of_nat t / of_nat n" by simp
  then have "round_double ?u \<le> round_double (of_nat t / of_nat n)"
    by (rule round_double_mono)
  then have "?u \<le> round_double (of_nat t / of_nat n)"
    by (simp only: round_double_constants)
  moreover have "3 < ?u" by simp
  ultimately have "3 < round_double (of_nat t / of_nat n)" by (rule less_le_trans [rotated])
  with True show ?thesis by simp
next
  case False
  then have "t * 1 \<le> 3 * n" by simp
  with ratio_le_iff [OF assms(1), of 1 t 3] have "(of_nat t :: rat) / of_nat n \<le> 3" by simp
  then have "round_double (of_nat t / of_nat n) \<le> round_double 3"
    by (rule round_double_mono)
  then have "round_double (of_nat t / of_nat n) \<le> 3"
    by (simp only: round_double_constants)
  with False show ?thesis by simp
qed

lemma ratio_below_third:
  assumes "0 < n" and "n \<le> 2 ^ 51"
  shows "(round_double (of_nat t / of_nat n) < round_double (1 / 3)) = (3 * t < n)"
proof (cases "3 * t < n")
  case True
  let ?v = "6004799503160660 / 18014398509481984 :: rat"
  from True assms(2) have "t * 18014398509481984 \<le> 6004799503160660 * n" by simp
  with ratio_le_iff [OF assms(1), of 18014398509481984 t 6004799503160660]
  have "of_nat t / of_nat n \<le> ?v" by simp
  then have "round_double (of_nat t / of_nat n) \<le> round_double ?v"
    by (rule round_double_mono)
  then have "round_double (of_nat t / of_nat n) \<le> ?v"
    by (simp only: round_double_constants)
  moreover have "?v < 6004799503160661 / 18014398509481984" by simp
  ultimately have "round_double (of_nat t / of_nat n) < 6004799503160661 / 18014398509481984"
    by (rule le_less_trans)
  with True show ?thesis by (simp only: round_double_constants)
next
  case False
  then have "1 * n \<le> t * 3" by simp
  with ratio_ge_iff [OF assms(1), of 3 1 t] have "1 / 3 \<le> (of_nat t :: rat) / of_nat n" by simp
  then have "round_double (1 / 3) \<le> round_double (of_nat t / of_nat n)"
    by (rule round_double_mono)
  with False show ?thesis by simp
qed

lemma ratio_above_5:
  assumes "0 < n" and "n \<le> 5"
  shows "(round_double (of_nat t / of_nat n) > 5) = (5 * n < t)"
proof (cases "5 * n < t")
  case True
  with assms(2) have "41 * n \<le> t * 8" by simp
  with ratio_ge_iff [OF assms(1), of 8 41 t] have "41 / 8 \<le> (of_nat t :: rat) / of_nat n" by simp
  then have "round_double (41 / 8) \<le> round_double (of_nat t / of_nat n)"
    by (rule round_double_mono)
  then have "41 / 8 \<le> round_double (of_nat t / of_nat n)"
    by (simp only: round_double_constants)
  moreover have "(5::rat) < 41 / 8" by simp
  ultimately have "5 < round_double (of_nat t / of_nat n)" by (rule less_le_trans [rotated])
  with True show ?thesis by simp
next
  case False
  then have "t * 1 \<le> 5 * n" by simp
  with ratio_le_iff [OF assms(1), of 1 t 5] have "(of_nat t :: rat) / of_nat n \<le> 5" by simp
  then have "round_double (of_nat t / of_nat n) \<le> round_double 5"
    by (rule round_double_mono)
  then have "round_double (of_nat t / of_nat n) \<le> 5"
    by (simp only: round_double_constants)
  with False show ?thesis by simp
qed

lemma ratio_below_fifth:
  assumes "0 < n" and "n \<le> 5"
  shows "(round_double (of_nat t / of_nat n) < round_double (1 / 5)) = (5 * t < n)"
proof (cases "5 * t < n")
  case True
  with assms(2) have "t = 0" by simp
  then have "round_double (of_nat t / of_nat n) = 0"
    by (simp add: round_double_constants)
  moreover have "(0::rat) < round_double (1 / 5)"
    by (simp only: round_double_constants)
  ultimately show ?thesis using True by simp
next
  case False
  then have "1 * n \<le> t * 5" by simp
  with ratio_ge_iff [OF assms(1), of 5 1 t] have "1 / 5 \<le> (of_nat t :: rat) / of_nat n" by simp
  then have "round_double (1 / 5) \<le> round_double (of_nat t / of_nat n)"
    by (rule round_double_mono)
  with False show ?thesis by simp
qed

lemma ratio_unusual_iff:
  assumes "0 < n"
  shows "ratio_unusual t n = (if n \<le> 5 then 5 * t < n \<or> 5 * n < t else 3 * t < n \<or> 3 * n < t)"
proof -
  have "((of_nat t :: rat) / of_nat n < 1 / 5) = (5 * t < n)"
    using ratio_less_iff [OF assms, of 5 t 1] by (simp add: mult.commute)
  moreover have "((5::rat) < of_nat t / of_nat n) = (5 * n < t)"
    using ratio_gt_iff [OF assms, of 1 5 t] by simp
  moreover have "((of_nat t :: rat) / of_nat n < 1 / 3) = (3 * t < n)"
    using ratio_less_iff [OF assms, of 3 t 1] by (simp add: mult.commute)
  moreover have "((3::rat) < of_nat t / of_nat n) = (3 * n < t)"
    using ratio_gt_iff [OF assms, of 1 3 t] by simp
  ultimately show ?thesis by (simp add: ratio_unusual_def Let_def)
qed

lemma validate_length_warns:
  assumes "0 < length original" and "length original \<le> 2 ^ 51"
  shows "validate_length original translated 3 =
     (if ratio_unusual (length translated) (length original)
      then valid_result\<lparr>warnings := [UnusualLength (length translated) (length original)]\<rparr>
      else valid_result)"
proof (cases "length original \<le> 5")
  case True
  with assms(1) show ?thesis
    by (simp add: validate_length_def float_div_def Let_def ratio_unusual_iff
        ratio_below_fifth ratio_above_5)
next
  case False
  with assms show ?thesis
    by (simp add: validate_length_def float_div_def Let_def ratio_unusual_iff
        ratio_below_third ratio_above_3)
qed

text \<open>
  Claim C7. For a non-empty original (of a length a machine can hold, at most \<open>2 ^ 51\<close>
  characters) the length check gives exactly one warning when the quotient of the length
  of the translation by the length of the original is below \<open>1 / tolerance\<close> or above
  \<open>tolerance\<close>, and no warning otherwise, where the tolerance is 5 for an original of at
  most 5 characters and 3 otherwise; it never gives an error and is always valid. For an
  empty original it gives nothing.
\<close>

theorem validate_length_spec:
  assumes "length original \<le> 2 ^ 51"
  shows "(length original = 0 \<longrightarrow> validate_length original translated 3 = valid_result)
     \<and> (length original \<noteq> 0 \<longrightarrow>
          warnings (validate_length original translated 3) =
            (if ratio_unusual (length translated) (length original)
             then [UnusualLength (length translated) (length original)] else []))
     \<and> errors (validate_length original translated 3) = []
     \<and> is_valid (validate_length original translated 3)"
proof (cases "length original = 0")
  case True
  then show ?thesis by (simp add: validate_length_def valid_result_def)
next
  case False
  then have "0 < length original" by simp
  from validate_length_warns [OF this assms, of translated] False show ?thesis
    by (simp add: valid_result_def)
qed

theorem validate_length_spec_witness:
  "warnings (validate_length (str_of ''Settings'') (str_of ''OK'') 3) = [UnusualLength 2 8]
   \<and> warnings (validate_length (str_of ''Settings'') (str_of ''Einstellungen'') 3) = []
   \<and> validate_length [] (str_of ''Einstellungen'') 3 = valid_result"
proof -
  have a: "ratio_unusual 2 8" "\<not> ratio_unusual 13 8"
    by (simp_all add: ratio_unusual_def)
  have l: "length (str_of ''Settings'') = 8" "length (str_of ''OK'') = 2"
    "length (str_of ''Einstellungen'') = 13"
    by (simp_all add: str_of_def)
  have b: "length (str_of ''Settings'') \<le> 2 ^ 51" "length ([] :: pystr) \<le> 2 ^ 51"
    by (simp_all add: str_of_def)
  show ?thesis
    using validate_length_spec [OF b(1), of "str_of ''OK''"]
      validate_length_spec [OF b(1), of "str_of ''Einstellungen''"]
      validate_length_spec [OF b(2), of "str_of ''Einstellungen''"]
    by (simp add: l a)
qed

end
